theory Spec2Isabelle
  imports Main "HOL-Library.Word"
begin

section \<open>Merkle commitment: the verifier of the contract\<close>

text \<open>
  A \<open>felt252\<close> is an element of the Stark prime field; it is modelled as a natural
  number. The Pedersen hash is a library primitive (\<open>core::pedersen::pedersen\<close> in the
  contract, \<open>@scure/starknet\<close> in the client); every function that hashes takes it as the
  parameter \<open>H\<close>, the same one on both sides.
\<close>

type_synonym felt = nat
type_synonym hash = "felt \<Rightarrow> felt \<Rightarrow> felt"
type_synonym u8 = "8 word"
type_synonym u32 = "32 word"
type_synonym u64 = "64 word"
type_synonym u256 = "256 word"

text \<open>\<open>compute_leaf\<close> of \<open>merkle_verifier.cairo\<close>.\<close>

definition compute_leaf :: "hash \<Rightarrow> u8 \<Rightarrow> u8 \<Rightarrow> u8 \<Rightarrow> felt \<Rightarrow> felt" where
  "compute_leaf H x y cell_value salt =
     (let h1 = H (unat x) (unat y);
          h2 = H h1 (unat cell_value)
      in H h2 salt)"

text \<open>
  The loop of \<open>verify_proof\<close>: one step per sibling, carrying \<open>current_hash\<close> and
  \<open>index\<close>.
\<close>

fun verify_loop :: "hash \<Rightarrow> felt \<Rightarrow> u32 \<Rightarrow> felt list \<Rightarrow> felt" where
  "verify_loop H current_hash index [] = current_hash"
| "verify_loop H current_hash index (sibling # rest) =
     verify_loop H
       (if index mod 2 = 0 then H current_hash sibling else H sibling current_hash)
       (index div 2) rest"

definition verify_proof :: "hash \<Rightarrow> felt \<Rightarrow> felt \<Rightarrow> felt list \<Rightarrow> u32 \<Rightarrow> bool" where
  "verify_proof H root leaf prf leaf_index = (verify_loop H leaf leaf_index prf = root)"

text \<open>
  \<open>coords_to_index\<close>: \<open>y * 10 + x\<close> in \<open>u32\<close>. With \<open>x, y \<le> 255\<close> the value is at most
  2805, so the checked arithmetic of Cairo never overflows here.
\<close>

definition coords_to_index :: "u8 \<Rightarrow> u8 \<Rightarrow> u32" where
  "coords_to_index x y = (ucast y * 10) + ucast x"


section \<open>The game contract\<close>

text \<open>
  A \<open>ContractAddress\<close> is a felt; the zero address is \<open>0\<close>. Unsigned integers are words
  of their width. Cairo's \<open>+\<close>, \<open>-\<close> and \<open>*\<close> on them panic on overflow instead of
  wrapping; the three checked operations below return \<open>None\<close> where the contract panics.
\<close>

type_synonym ContractAddress = nat

definition checked_add :: "'a::len word \<Rightarrow> 'a word \<Rightarrow> 'a word option" where
  "checked_add a b = (if unat a + unat b < 2 ^ LENGTH('a) then Some (a + b) else None)"

definition checked_sub :: "'a::len word \<Rightarrow> 'a word \<Rightarrow> 'a word option" where
  "checked_sub a b = (if b \<le> a then Some (a - b) else None)"

definition checked_mul :: "'a::len word \<Rightarrow> 'a word \<Rightarrow> 'a word option" where
  "checked_mul a b = (if unat a * unat b < 2 ^ LENGTH('a) then Some (a * b) else None)"

datatype GameStatus =
    WaitingForOpponent
  | WaitingForCommitments
  | InProgress
  | Finished
  | Forfeited

text \<open>The struct \<open>Game\<close>; its field \<open>id\<close> is \<open>id_field\<close> here.\<close>

record Game =
  id_field :: u64
  player1 :: ContractAddress
  player2 :: ContractAddress
  player1_root :: felt
  player2_root :: felt
  stake_amount :: u256
  current_turn :: ContractAddress
  player1_hits :: u8
  player2_hits :: u8
  last_move_time :: u64
  status :: GameStatus
  winner :: ContractAddress
  pending_attack_x :: u8
  pending_attack_y :: u8
  has_pending_attack :: bool

text \<open>
  Calls made to the STRK token: \<open>transfer_from(sender, this, amount)\<close> and
  \<open>transfer(recipient, amount)\<close>.
\<close>

datatype token_call =
    TransferFrom ContractAddress u256
  | Transfer ContractAddress u256

text \<open>
  The contract's \<open>Storage\<close>. A storage \<open>Map\<close> reads as zero at a key never written, so
  both maps are total functions. \<open>token_calls\<close> is not a storage variable: it records, in
  order, the token calls of the transactions that went through, which is how the model
  sees who was paid what.
\<close>

record Storage =
  game_count :: u64
  games :: "u64 \<Rightarrow> Game"
  revealed_cells :: "u64 \<times> ContractAddress \<times> u32 \<Rightarrow> bool"
  owner :: ContractAddress
  house_balance :: u256
  token_calls :: "token_call list"

text \<open>
  What a call sees of its transaction: \<open>get_caller_address()\<close>,
  \<open>get_block_timestamp()\<close>, and whether the one token call it makes goes through
  (the token returning \<open>false\<close> and the token panicking both abort the call).
\<close>

record env =
  caller :: ContractAddress
  block_timestamp :: u64
  token_success :: bool

text \<open>
  One constructor per panic message of the contract; \<open>Overflow\<close> stands for the
  arithmetic panics (\<open>u8_add\<close>, \<open>u64_add\<close>, \<open>u64_sub\<close>, \<open>u256_add\<close>, \<open>u256_mul\<close>,
  \<open>u256_sub\<close>). In the words of the specification: \<open>AlreadyCommitted\<close> and
  \<open>CellAlreadyAttacked\<close> are \<open>AlreadyDone\<close>, \<open>NotEnoughHitsToWin\<close> is
  \<open>ThresholdNotMet\<close>, \<open>NoTimeoutToClaim\<close> is \<open>NoTimeoutParty\<close>.
\<close>

datatype panic =
    StakeTooLow
  | TransferFailed
  | GameDoesNotExist
  | GameNotJoinable
  | CannotJoinOwnGame
  | NotInCommitmentPhase
  | NotAPlayer
  | AlreadyCommitted
  | GameNotInProgress
  | PendingAttackExists
  | NotYourTurn
  | XOutOfBounds
  | YOutOfBounds
  | CellAlreadyAttacked
  | NoPendingAttack
  | WrongXCoordinate
  | WrongYCoordinate
  | InvalidMerkleProof
  | NotEnoughHitsToWin
  | PrizeTransferFailed
  | GameNotActive
  | NoTimeoutToClaim
  | TimeoutNotReached
  | OnlyOwnerCanWithdraw
  | InsufficientHouseBalance
  | WithdrawalTransferFailed
  | OnlyOwnerCanTransfer
  | InvalidNewOwner
  | Overflow

definition BOARD_SIZE :: u8 where "BOARD_SIZE = 10"
definition HITS_TO_WIN :: u8 where "HITS_TO_WIN = 7"
definition DEFAULT_TIMEOUT :: u64 where "DEFAULT_TIMEOUT = 86400"
definition MIN_STAKE :: u256 where "MIN_STAKE = 1000000000000000000"
definition HOUSE_FEE_BPS :: u256 where "HOUSE_FEE_BPS = 100"

definition zero_addr :: ContractAddress where "zero_addr = 0"

text \<open>The value a \<open>Game\<close> slot of storage reads as before it is written.\<close>

definition empty_game :: Game where
  "empty_game = \<lparr>id_field = 0, player1 = zero_addr, player2 = zero_addr, player1_root = 0,
     player2_root = 0, stake_amount = 0, current_turn = zero_addr, player1_hits = 0,
     player2_hits = 0, last_move_time = 0, status = WaitingForOpponent, winner = zero_addr,
     pending_attack_x = 0, pending_attack_y = 0, has_pending_attack = False\<rparr>"

definition constructor :: "ContractAddress \<Rightarrow> Storage" where
  "constructor own = \<lparr>game_count = 0, games = (\<lambda>_. empty_game), revealed_cells = (\<lambda>_. False),
     owner = own, house_balance = 0, token_calls = []\<rparr>"

text \<open>
  Each entry point returns \<open>Inl\<close> of the panic, or \<open>Inr\<close> of the storage it leaves. A
  panic reverts the transaction, so a failed call has no storage of its own to return.
  Events are not modelled.
\<close>

definition create_game :: "env \<Rightarrow> u256 \<Rightarrow> Storage \<Rightarrow> panic + (u64 \<times> Storage)" where
  "create_game e stake s =
     (if \<not> MIN_STAKE \<le> stake then Inl StakeTooLow
      else if \<not> token_success e then Inl TransferFailed
      else case checked_add (game_count s) 1 of
             None \<Rightarrow> Inl Overflow
           | Some game_id \<Rightarrow>
               let game = \<lparr>id_field = game_id, player1 = caller e, player2 = zero_addr,
                     player1_root = 0, player2_root = 0, stake_amount = stake,
                     current_turn = zero_addr, player1_hits = 0, player2_hits = 0,
                     last_move_time = block_timestamp e, status = WaitingForOpponent,
                     winner = zero_addr, pending_attack_x = 0, pending_attack_y = 0,
                     has_pending_attack = False\<rparr>
               in Inr (game_id,
                    s\<lparr>game_count := game_id,
                      games := (games s)(game_id := game),
                      token_calls := token_calls s @ [TransferFrom (caller e) stake]\<rparr>))"

definition join_game :: "env \<Rightarrow> u64 \<Rightarrow> Storage \<Rightarrow> panic + Storage" where
  "join_game e game_id s =
     (let game = games s game_id in
      if id_field game = 0 then Inl GameDoesNotExist
      else if status game \<noteq> WaitingForOpponent then Inl GameNotJoinable
      else if caller e = player1 game then Inl CannotJoinOwnGame
      else if \<not> token_success e then Inl TransferFailed
      else Inr (s\<lparr>games := (games s)(game_id :=
                      game\<lparr>player2 := caller e, status := WaitingForCommitments,
                           last_move_time := block_timestamp e\<rparr>),
                  token_calls := token_calls s @ [TransferFrom (caller e) (stake_amount game)]\<rparr>))"

definition commit_board :: "env \<Rightarrow> u64 \<Rightarrow> felt \<Rightarrow> Storage \<Rightarrow> panic + Storage" where
  "commit_board e game_id merkle_root s =
     (let game = games s game_id in
      if id_field game = 0 then Inl GameDoesNotExist
      else if status game \<noteq> WaitingForCommitments then Inl NotInCommitmentPhase
      else
        let is_player1 = (caller e = player1 game);
            is_player2 = (caller e = player2 game)
        in if \<not> (is_player1 \<or> is_player2) then Inl NotAPlayer
           else if (if is_player1 then player1_root game else player2_root game) \<noteq> 0
             then Inl AlreadyCommitted
           else
             let game1 = (if is_player1 then game\<lparr>player1_root := merkle_root\<rparr>
                          else game\<lparr>player2_root := merkle_root\<rparr>);
                 game2 = (if player1_root game1 \<noteq> 0 \<and> player2_root game1 \<noteq> 0
                          then game1\<lparr>status := InProgress,
                                 current_turn := (if block_timestamp e mod 2 = 1
                                                  then player1 game1 else player2 game1)\<rparr>
                          else game1)
             in Inr (s\<lparr>games := (games s)(game_id :=
                          game2\<lparr>last_move_time := block_timestamp e\<rparr>)\<rparr>))"

definition attack :: "env \<Rightarrow> u64 \<Rightarrow> u8 \<Rightarrow> u8 \<Rightarrow> Storage \<Rightarrow> panic + Storage" where
  "attack e game_id x y s =
     (let game = games s game_id in
      if id_field game = 0 then Inl GameDoesNotExist
      else if status game \<noteq> InProgress then Inl GameNotInProgress
      else if has_pending_attack game then Inl PendingAttackExists
      else if caller e \<noteq> current_turn game then Inl NotYourTurn
      else if \<not> x < BOARD_SIZE then Inl XOutOfBounds
      else if \<not> y < BOARD_SIZE then Inl YOutOfBounds
      else
        let defender = (if caller e = player1 game then player2 game else player1 game);
            cell_index = coords_to_index x y;
            already_revealed = revealed_cells s (game_id, defender, cell_index)
        in if already_revealed then Inl CellAlreadyAttacked
           else Inr (s\<lparr>games := (games s)(game_id :=
                          game\<lparr>pending_attack_x := x, pending_attack_y := y,
                               has_pending_attack := True, current_turn := defender,
                               last_move_time := block_timestamp e\<rparr>)\<rparr>))"

definition reveal ::
  "hash \<Rightarrow> env \<Rightarrow> u64 \<Rightarrow> u8 \<Rightarrow> u8 \<Rightarrow> bool \<Rightarrow> felt \<Rightarrow> felt list \<Rightarrow> Storage \<Rightarrow> panic + Storage" where
  "reveal H e game_id x y is_hit salt prf s =
     (let game = games s game_id in
      if id_field game = 0 then Inl GameDoesNotExist
      else if status game \<noteq> InProgress then Inl GameNotInProgress
      else if \<not> has_pending_attack game then Inl NoPendingAttack
      else if caller e \<noteq> current_turn game then Inl NotYourTurn
      else if x \<noteq> pending_attack_x game then Inl WrongXCoordinate
      else if y \<noteq> pending_attack_y game then Inl WrongYCoordinate
      else
        let root = (if caller e = player1 game then player1_root game else player2_root game);
            cell_value = (if is_hit then 1 else 0);
            leaf = compute_leaf H x y cell_value salt;
            leaf_index = coords_to_index x y;
            valid = verify_proof H root leaf prf leaf_index
        in if \<not> valid then Inl InvalidMerkleProof
           else
             let attacker = (if caller e = player1 game then player2 game else player1 game);
                 counted =
                   (if is_hit then
                      (if attacker = player1 game
                       then map_option (\<lambda>h. game\<lparr>player1_hits := h\<rparr>)
                              (checked_add (player1_hits game) 1)
                       else map_option (\<lambda>h. game\<lparr>player2_hits := h\<rparr>)
                              (checked_add (player2_hits game) 1))
                    else Some game)
             in case counted of
                  None \<Rightarrow> Inl Overflow
                | Some game1 \<Rightarrow>
                    Inr (s\<lparr>revealed_cells :=
                            (revealed_cells s)((game_id, caller e, leaf_index) := True),
                          games := (games s)(game_id :=
                            game1\<lparr>has_pending_attack := False, current_turn := caller e,
                                  last_move_time := block_timestamp e\<rparr>)\<rparr>))"

definition claim_victory :: "env \<Rightarrow> u64 \<Rightarrow> Storage \<Rightarrow> panic + Storage" where
  "claim_victory e game_id s =
     (let game = games s game_id in
      if id_field game = 0 then Inl GameDoesNotExist
      else if status game \<noteq> InProgress then Inl GameNotInProgress
      else
        let is_player1 = (caller e = player1 game);
            is_player2 = (caller e = player2 game)
        in if \<not> (is_player1 \<or> is_player2) then Inl NotAPlayer
           else
             let hits = (if is_player1 then player1_hits game else player2_hits game)
             in if \<not> HITS_TO_WIN \<le> hits then Inl NotEnoughHitsToWin
                else
                  (case checked_mul (stake_amount game) 2 of
                     None \<Rightarrow> Inl Overflow
                   | Some total_pot \<Rightarrow>
                  (case checked_mul total_pot HOUSE_FEE_BPS of
                     None \<Rightarrow> Inl Overflow
                   | Some scaled \<Rightarrow>
                  (let house_fee = scaled div 10000 in
                  (case checked_sub total_pot house_fee of
                     None \<Rightarrow> Inl Overflow
                   | Some winner_payout \<Rightarrow>
                  (case checked_add (house_balance s) house_fee of
                     None \<Rightarrow> Inl Overflow
                   | Some new_balance \<Rightarrow>
                  (if \<not> token_success e then Inl PrizeTransferFailed
                   else Inr (s\<lparr>games := (games s)(game_id :=
                                   game\<lparr>status := Finished, winner := caller e\<rparr>),
                               house_balance := new_balance,
                               token_calls :=
                                 token_calls s @ [Transfer (caller e) winner_payout]\<rparr>))))))))"

text \<open>The party \<open>claim_timeout\<close> holds to have timed out, or the zero address.\<close>

definition timed_out_player :: "Game \<Rightarrow> ContractAddress \<Rightarrow> ContractAddress" where
  "timed_out_player game c =
     (let is_player1 = (c = player1 game);
          is_player2 = (c = player2 game)
      in if status game = WaitingForCommitments then
           (if is_player1 \<and> player2_root game = 0 \<and> player2 game \<noteq> zero_addr then player2 game
            else if is_player2 \<and> player1_root game = 0 then player1 game
            else zero_addr)
         else
           (if current_turn game \<noteq> c then current_turn game else zero_addr))"

definition claim_timeout :: "env \<Rightarrow> u64 \<Rightarrow> Storage \<Rightarrow> panic + Storage" where
  "claim_timeout e game_id s =
     (let game = games s game_id in
      if id_field game = 0 then Inl GameDoesNotExist
      else if \<not> (status game = WaitingForCommitments \<or> status game = InProgress)
        then Inl GameNotActive
      else if \<not> (caller e = player1 game \<or> caller e = player2 game) then Inl NotAPlayer
      else if \<not> timed_out_player game (caller e) \<noteq> zero_addr then Inl NoTimeoutToClaim
      else
        (case checked_sub (block_timestamp e) (last_move_time game) of
           None \<Rightarrow> Inl Overflow
         | Some elapsed \<Rightarrow>
        (if \<not> DEFAULT_TIMEOUT \<le> elapsed then Inl TimeoutNotReached
         else
          (case (if status game = WaitingForCommitments \<and> player2 game = zero_addr
                 then Some (stake_amount game)
                 else checked_mul (stake_amount game) 2) of
             None \<Rightarrow> Inl Overflow
           | Some total_pot \<Rightarrow>
          (if \<not> token_success e then Inl PrizeTransferFailed
           else Inr (s\<lparr>games := (games s)(game_id :=
                           game\<lparr>status := Forfeited, winner := caller e\<rparr>),
                       token_calls := token_calls s @ [Transfer (caller e) total_pot]\<rparr>))))))"

definition withdraw_house_funds :: "env \<Rightarrow> u256 \<Rightarrow> Storage \<Rightarrow> panic + Storage" where
  "withdraw_house_funds e amount s =
     (if caller e \<noteq> owner s then Inl OnlyOwnerCanWithdraw
      else if \<not> amount \<le> house_balance s then Inl InsufficientHouseBalance
      else if \<not> token_success e then Inl WithdrawalTransferFailed
      else Inr (s\<lparr>house_balance := house_balance s - amount,
                  token_calls := token_calls s @ [Transfer (caller e) amount]\<rparr>))"

definition transfer_ownership :: "env \<Rightarrow> ContractAddress \<Rightarrow> Storage \<Rightarrow> panic + Storage" where
  "transfer_ownership e new_owner s =
     (if caller e \<noteq> owner s then Inl OnlyOwnerCanTransfer
      else if new_owner = zero_addr then Inl InvalidNewOwner
      else Inr (s\<lparr>owner := new_owner\<rparr>))"

subsection \<open>Transactions\<close>

text \<open>
  The state-changing entry points as one type of call. \<open>upgrade\<close> is left out: it replaces
  the contract's class, after which this code no longer runs.
\<close>

datatype call =
    CreateGame u256
  | JoinGame u64
  | CommitBoard u64 felt
  | Attack u64 u8 u8
  | Reveal u64 u8 u8 bool felt "felt list"
  | ClaimVictory u64
  | ClaimTimeout u64
  | WithdrawHouseFunds u256
  | TransferOwnership ContractAddress

fun dispatch :: "hash \<Rightarrow> env \<Rightarrow> call \<Rightarrow> Storage \<Rightarrow> panic + Storage" where
  "dispatch H e (CreateGame stake) s = map_sum (\<lambda>p. p) snd (create_game e stake s)"
| "dispatch H e (JoinGame g) s = join_game e g s"
| "dispatch H e (CommitBoard g r) s = commit_board e g r s"
| "dispatch H e (Attack g x y) s = attack e g x y s"
| "dispatch H e (Reveal g x y is_hit salt prf) s = reveal H e g x y is_hit salt prf s"
| "dispatch H e (ClaimVictory g) s = claim_victory e g s"
| "dispatch H e (ClaimTimeout g) s = claim_timeout e g s"
| "dispatch H e (WithdrawHouseFunds a) s = withdraw_house_funds e a s"
| "dispatch H e (TransferOwnership a) s = transfer_ownership e a s"

text \<open>
  A transaction on the ledger: the storage after it and the panic, if any. Starknet
  reverts a transaction that panics, so the storage after a failed call is the storage
  before it.
\<close>

definition transact :: "hash \<Rightarrow> env \<Rightarrow> call \<Rightarrow> Storage \<Rightarrow> Storage \<times> panic option" where
  "transact H e c s = (case dispatch H e c s of Inl p \<Rightarrow> (s, Some p) | Inr s' \<Rightarrow> (s', None))"

text \<open>
  The states of a deployed contract: the constructor's, and those reached by
  transactions that went through. An account calls the contract, so the caller of a
  transaction is never the zero address.
\<close>

inductive reachable :: "hash \<Rightarrow> Storage \<Rightarrow> bool" for H :: hash where
  deployed: "reachable H (constructor own)"
| step: "reachable H s \<Longrightarrow> caller e \<noteq> zero_addr \<Longrightarrow> dispatch H e c s = Inr s' \<Longrightarrow> reachable H s'"


section \<open>Merkle commitment: the tree builder of the client\<close>

text \<open>
  The client works on JavaScript numbers and bigints; board coordinates, indices and cell
  values are natural numbers here. A JavaScript function that throws, or that would put
  \<open>undefined\<close> where a bigint is expected (an array read out of range), yields \<open>None\<close>.
\<close>

definition computeLeaf :: "hash \<Rightarrow> nat \<Rightarrow> nat \<Rightarrow> nat \<Rightarrow> felt \<Rightarrow> felt" where
  "computeLeaf H x y cellValue salt =
     (let h1 = H x y;
          h2 = H h1 cellValue
      in H h2 salt)"

definition coordsToIndex :: "nat \<Rightarrow> nat \<Rightarrow> nat" where
  "coordsToIndex x y = y * 10 + x"

definition indexToCoords :: "nat \<Rightarrow> nat \<times> nat" where
  "indexToCoords index = (index mod 10, index div 10)"

record MerkleTreeResult =
  root :: felt
  leaves :: "felt list"
  tree :: "felt list list"

record MerkleProof =
  leaf :: felt
  proof_siblings :: "felt list"
  leafIndex :: nat

text \<open>
  One pass of the inner \<open>for\<close> loop of \<open>buildMerkleTree\<close>: the parents of a level, pair
  by pair. On a level of odd length the last \<open>right\<close> is \<open>undefined\<close>.
\<close>

fun next_level :: "hash \<Rightarrow> felt list \<Rightarrow> felt list option" where
  "next_level H [] = Some []"
| "next_level H [left] = None"
| "next_level H (left # right # rest) =
     (case next_level H rest of None \<Rightarrow> None | Some ps \<Rightarrow> Some (H left right # ps))"

text \<open>
  The \<open>while (currentLevel.length > 1)\<close> loop: the list of levels from \<open>currentLevel\<close>
  up to the top.
\<close>

function build_levels :: "hash \<Rightarrow> felt list \<Rightarrow> felt list list option" where
  "build_levels H currentLevel =
     (if length currentLevel > 1 then
        (case next_level H currentLevel of
           None \<Rightarrow> None
         | Some nextLevel \<Rightarrow>
             (case build_levels H nextLevel of
                None \<Rightarrow> None
              | Some upper \<Rightarrow> Some (currentLevel # upper)))
      else Some [currentLevel])"
  by pat_completeness auto
termination
proof (relation "measure (\<lambda>(H, l). length l)")
  show "wf (measure (\<lambda>(H :: hash, l :: felt list). length l))" by simp
next
  fix H :: hash and currentLevel nextLevel :: "felt list"
  assume big: "1 < length currentLevel" and nl: "next_level H currentLevel = Some nextLevel"
  have "next_level H xs = Some ys \<Longrightarrow> length xs = 2 * length ys" for xs ys
    by (induction H xs arbitrary: ys rule: next_level.induct) (auto split: option.splits)
  from this [OF nl] big have "length nextLevel < length currentLevel" by linarith
  then show "((H, nextLevel), (H, currentLevel)) \<in> measure (\<lambda>(H, l). length l)" by simp
qed

declare build_levels.simps [simp del]

definition board_leaves :: "hash \<Rightarrow> nat list list \<Rightarrow> felt \<Rightarrow> felt list" where
  "board_leaves H board salt =
     concat (map (\<lambda>y. map (\<lambda>x. computeLeaf H x y (board ! y ! x) salt) [0..<10]) [0..<10])"

definition pad_leaves :: "felt list \<Rightarrow> felt list" where
  "pad_leaves ls = ls @ replicate (128 - length ls) 0"

definition buildMerkleTree :: "hash \<Rightarrow> nat list list \<Rightarrow> felt \<Rightarrow> MerkleTreeResult option" where
  "buildMerkleTree H board salt =
     (if length board \<noteq> 10 \<or> \<not> list_all (\<lambda>row. length row = 10) board then None
      else
        let ls = board_leaves H board salt;
            paddedLeaves = pad_leaves ls
        in case build_levels H paddedLeaves of
             None \<Rightarrow> None
           | Some t \<Rightarrow>
               (case last t of
                  [] \<Rightarrow> None
                | r # _ \<Rightarrow> Some \<lparr>root = r, leaves = ls, tree = t\<rparr>))"

text \<open>
  The loop of \<open>generateProof\<close> over the levels below the top: \<open>levels\<close> is the part of
  \<open>tree\<close> from the current level on.
\<close>

fun proof_loop :: "felt list list \<Rightarrow> nat \<Rightarrow> felt list option" where
  "proof_loop [] index = Some []"
| "proof_loop [topLevel] index = Some []"
| "proof_loop (level # upper) index =
     (let isLeft = (index mod 2 = 0);
          siblingIndex = (if isLeft then index + 1 else index - 1)
      in if siblingIndex < length level then
           (case proof_loop upper (index div 2) of
              None \<Rightarrow> None
            | Some ps \<Rightarrow> Some (level ! siblingIndex # ps))
         else None)"

definition generateProof :: "felt list list \<Rightarrow> nat \<Rightarrow> nat \<Rightarrow> MerkleProof option" where
  "generateProof t x y =
     (let li = coordsToIndex x y in
      case t of
        [] \<Rightarrow> None
      | level0 # _ \<Rightarrow>
          if li < length level0 then
            (case proof_loop t li of
               None \<Rightarrow> None
             | Some ps \<Rightarrow> Some \<lparr>leaf = level0 ! li, proof_siblings = ps, leafIndex = li\<rparr>)
          else None)"

text \<open>The client's own \<open>verifyProof\<close>, on a JavaScript number index.\<close>

fun verifyProof_loop :: "hash \<Rightarrow> felt \<Rightarrow> nat \<Rightarrow> felt list \<Rightarrow> felt" where
  "verifyProof_loop H currentHash index [] = currentHash"
| "verifyProof_loop H currentHash index (sibling # rest) =
     verifyProof_loop H
       (if index mod 2 = 0 then H currentHash sibling else H sibling currentHash)
       (index div 2) rest"

definition verifyProof :: "hash \<Rightarrow> felt \<Rightarrow> felt \<Rightarrow> felt list \<Rightarrow> nat \<Rightarrow> bool" where
  "verifyProof H r l prf li = (verifyProof_loop H l li prf = r)"

section \<open>Notions used in the statements\<close>

text \<open>
  The hit counter of a caller, chosen as \<open>claim_victory\<close> chooses it.
\<close>

definition caller_hits :: "Game \<Rightarrow> ContractAddress \<Rightarrow> u8" where
  "caller_hits game c = (if c = player1 game then player1_hits game else player2_hits game)"

text \<open>
  What holds of every game slot in a reachable storage: it is unwritten, or it holds the
  game of that id, created by a non-zero \<open>player1\<close> who paid the stake; once joined,
  \<open>player2\<close> is a second, non-zero address who paid the same stake; and an attack is
  pending only from \<open>InProgress\<close> on, at coordinates on the board.
\<close>

definition game_ok :: "u64 \<Rightarrow> token_call list \<Rightarrow> u64 \<Rightarrow> Game \<Rightarrow> bool" where
  "game_ok n paid g G \<longleftrightarrow>
     G = empty_game \<or>
     (id_field G = g \<and> g \<noteq> 0 \<and> g \<le> n \<and> player1 G \<noteq> zero_addr \<and>
      TransferFrom (player1 G) (stake_amount G) \<in> set paid \<and>
      (status G \<noteq> WaitingForOpponent \<longrightarrow>
         player2 G \<noteq> zero_addr \<and> player2 G \<noteq> player1 G \<and>
         TransferFrom (player2 G) (stake_amount G) \<in> set paid) \<and>
      (has_pending_attack G \<longrightarrow>
         status G \<noteq> WaitingForOpponent \<and> status G \<noteq> WaitingForCommitments \<and>
         pending_attack_x G < 10 \<and> pending_attack_y G < 10))"

definition inv :: "Storage \<Rightarrow> bool" where
  "inv s \<longleftrightarrow> (\<forall>g. game_ok (game_count s) (token_calls s) g (games s g))"

text \<open>
  The root recorded for a caller, chosen as \<open>commit_board\<close> and \<open>reveal\<close> choose it, and
  the other party of a game, as \<open>attack\<close> computes the defender and \<open>reveal\<close> the
  attacker.
\<close>

definition committed_root :: "Game \<Rightarrow> ContractAddress \<Rightarrow> felt" where
  "committed_root game c = (if c = player1 game then player1_root game else player2_root game)"

definition opponent_of :: "Game \<Rightarrow> ContractAddress \<Rightarrow> ContractAddress" where
  "opponent_of game c = (if c = player1 game then player2 game else player1 game)"

text \<open>
  What each call requires, in the words of the specification of the operations: the
  conditions on phase, caller, arguments and stored flags, and that the call's fund
  transfer succeeds. Arithmetic overflow is not among them.
\<close>

fun precondition :: "hash \<Rightarrow> env \<Rightarrow> call \<Rightarrow> Storage \<Rightarrow> bool" where
  "precondition H e (CreateGame stake) s \<longleftrightarrow> MIN_STAKE \<le> stake \<and> token_success e"
| "precondition H e (JoinGame g) s \<longleftrightarrow>
     id_field (games s g) \<noteq> 0 \<and> status (games s g) = WaitingForOpponent \<and>
     caller e \<noteq> player1 (games s g) \<and> token_success e"
| "precondition H e (CommitBoard g r) s \<longleftrightarrow>
     id_field (games s g) \<noteq> 0 \<and> status (games s g) = WaitingForCommitments \<and>
     (caller e = player1 (games s g) \<or> caller e = player2 (games s g)) \<and>
     committed_root (games s g) (caller e) = 0"
| "precondition H e (Attack g x y) s \<longleftrightarrow>
     id_field (games s g) \<noteq> 0 \<and> status (games s g) = InProgress \<and>
     \<not> has_pending_attack (games s g) \<and> caller e = current_turn (games s g) \<and>
     x < 10 \<and> y < 10 \<and>
     \<not> revealed_cells s (g, opponent_of (games s g) (caller e), coords_to_index x y)"
| "precondition H e (Reveal g x y is_hit salt prf) s \<longleftrightarrow>
     id_field (games s g) \<noteq> 0 \<and> status (games s g) = InProgress \<and>
     has_pending_attack (games s g) \<and>
     pending_attack_x (games s g) = x \<and> pending_attack_y (games s g) = y \<and>
     caller e = current_turn (games s g) \<and>
     verify_proof H (committed_root (games s g) (caller e))
       (compute_leaf H x y (if is_hit then 1 else 0) salt) prf (coords_to_index x y)"
| "precondition H e (ClaimVictory g) s \<longleftrightarrow>
     id_field (games s g) \<noteq> 0 \<and> status (games s g) = InProgress \<and>
     (caller e = player1 (games s g) \<or> caller e = player2 (games s g)) \<and>
     HITS_TO_WIN \<le> caller_hits (games s g) (caller e) \<and> token_success e"
| "precondition H e (ClaimTimeout g) s \<longleftrightarrow>
     id_field (games s g) \<noteq> 0 \<and>
     (status (games s g) = WaitingForCommitments \<or> status (games s g) = InProgress) \<and>
     (caller e = player1 (games s g) \<or> caller e = player2 (games s g)) \<and>
     timed_out_player (games s g) (caller e) \<noteq> zero_addr \<and>
     unat DEFAULT_TIMEOUT \<le> unat (block_timestamp e) - unat (last_move_time (games s g)) \<and>
     token_success e"
| "precondition H e (WithdrawHouseFunds a) s \<longleftrightarrow>
     caller e = owner s \<and> a \<le> house_balance s \<and> token_success e"
| "precondition H e (TransferOwnership a) s \<longleftrightarrow> caller e = owner s \<and> a \<noteq> zero_addr"

section \<open>Concrete instances\<close>

text \<open>
  A small stand-in for the hash, a board with two occupied cells, and two players, on
  which the statements below are evaluated.
\<close>

definition sample_hash :: hash where
  "sample_hash a b = 3 * a + b + 1"

definition sample_board :: "nat list list" where
  "sample_board =
     [[0, 1, 1, 0, 0, 0, 0, 0, 0, 0],
      [0, 0, 0, 0, 0, 0, 0, 0, 0, 0],
      [0, 0, 0, 0, 0, 0, 0, 0, 0, 0],
      [0, 0, 0, 0, 0, 0, 0, 0, 0, 0],
      [0, 0, 0, 0, 0, 0, 0, 0, 0, 0],
      [0, 0, 0, 0, 0, 0, 0, 0, 0, 0],
      [0, 0, 0, 0, 0, 0, 0, 0, 0, 0],
      [0, 0, 0, 0, 0, 0, 0, 0, 0, 0],
      [0, 0, 0, 0, 0, 0, 0, 0, 0, 0],
      [0, 0, 0, 0, 0, 0, 0, 0, 0, 0]]"

definition alice :: ContractAddress where "alice = 1"
definition bob :: ContractAddress where "bob = 2"

definition tx_env :: "ContractAddress \<Rightarrow> u64 \<Rightarrow> env" where
  "tx_env c t = \<lparr>caller = c, block_timestamp = t, token_success = True\<rparr>"

text \<open>
  A game between \<open>alice\<close> and \<open>bob\<close> in progress, with the given hit counters; no attack
  is pending and it is \<open>alice\<close>'s turn. The root of \<open>bob\<close> is the root of the sample
  board's tree under the sample hash and the salt 12345.
\<close>

definition game_in_progress :: "u8 \<Rightarrow> u8 \<Rightarrow> Game" where
  "game_in_progress h1 h2 =
     \<lparr>id_field = 1, player1 = alice, player2 = bob, player1_root = 111,
      player2_root = 197089987,
      stake_amount = 1000000000000000000, current_turn = alice, player1_hits = h1,
      player2_hits = h2, last_move_time = 5001, status = InProgress, winner = zero_addr,
      pending_attack_x = 0, pending_attack_y = 0, has_pending_attack = False\<rparr>"

definition storage_with :: "Game \<Rightarrow> Storage" where
  "storage_with game =
     \<lparr>game_count = 1, games = (\<lambda>_. empty_game)(1 := game), revealed_cells = (\<lambda>_. False),
      owner = 9, house_balance = 0,
      token_calls = [TransferFrom alice 1000000000000000000,
                     TransferFrom bob 1000000000000000000]\<rparr>"

text \<open>
  The levels of the sample board's tree under the sample hash and the salt 12345, leaves
  first.
\<close>

definition sample_level0 :: "felt list" where
  "sample_level0 =
     [12358, 12388, 12415, 12439, 12466, 12493, 12520, 12547, 12574, 12601, 12367, 12394,
      12421, 12448, 12475, 12502, 12529, 12556, 12583, 12610, 12376, 12403, 12430, 12457,
      12484, 12511, 12538, 12565, 12592, 12619, 12385, 12412, 12439, 12466, 12493, 12520,
      12547, 12574, 12601, 12628, 12394, 12421, 12448, 12475, 12502, 12529, 12556, 12583,
      12610, 12637, 12403, 12430, 12457, 12484, 12511, 12538, 12565, 12592, 12619, 12646,
      12412, 12439, 12466, 12493, 12520, 12547, 12574, 12601, 12628, 12655, 12421, 12448,
      12475, 12502, 12529, 12556, 12583, 12610, 12637, 12664, 12430, 12457, 12484, 12511,
      12538, 12565, 12592, 12619, 12646, 12673, 12439, 12466, 12493, 12520, 12547, 12574,
      12601, 12628, 12655, 12682, 0, 0, 0, 0, 0, 0, 0, 0, 0, 0, 0, 0, 0, 0, 0, 0, 0, 0, 0,
      0, 0, 0, 0, 0, 0, 0, 0, 0]"

definition sample_level1 :: "felt list" where
  "sample_level1 =
     [49463, 49685, 49892, 50108, 50324, 49496, 49712, 49928, 50144, 50360, 49532, 49748,
      49964, 50180, 50396, 49568, 49784, 50000, 50216, 50432, 49604, 49820, 50036, 50252,
      50468, 49640, 49856, 50072, 50288, 50504, 49676, 49892, 50108, 50324, 50540, 49712,
      49928, 50144, 50360, 50576, 49748, 49964, 50180, 50396, 50612, 49784, 50000, 50216,
      50432, 50648, 1, 1, 1, 1, 1, 1, 1, 1, 1, 1, 1, 1, 1, 1]"

definition sample_level2 :: "felt list" where
  "sample_level2 =
     [198075, 199785, 200469, 199065, 200793, 198345, 200073, 200757, 199353, 201081,
      198633, 200361, 201045, 199641, 201369, 198921, 200649, 201333, 199929, 201657,
      199209, 200937, 201621, 200217, 201945, 5, 5, 5, 5, 5, 5, 5]"

definition sample_level3 :: "felt list" where
  "sample_level3 =
     [794011, 800473, 800725, 800977, 799141, 796261, 802777, 803029, 803281, 801445,
      798565, 805081, 605841, 21, 21, 21]"

definition sample_level4 :: "felt list" where
  "sample_level4 =
     [3182507, 3203153, 3193685, 3211361, 3211289, 3200777, 1817545, 85]"

definition sample_level5 :: "felt list" where
  "sample_level5 =
     [12750675, 12792417, 12834645, 5452721]"

definition sample_level6 :: "felt list" where
  "sample_level6 =
     [51044443, 43956657]"

definition sample_level7 :: "felt list" where
  "sample_level7 =
     [197089987]"

text \<open>
  The sample game after \<open>alice\<close> has attacked the cell \<open>(1, 0)\<close>: \<open>bob\<close> owes the reveal.
\<close>

definition game_attacked :: "u8 \<Rightarrow> u8 \<Rightarrow> Game" where
  "game_attacked h1 h2 =
     (game_in_progress h1 h2)\<lparr>pending_attack_x := 1, pending_attack_y := 0,
        has_pending_attack := True, current_turn := bob, last_move_time := 6000\<rparr>"

definition sample_proof :: "felt list" where
  "sample_proof = [12358, 49685, 199785, 800473, 3203153, 12792417, 43956657]"

text \<open>
  The sample game step by step: created by \<open>alice\<close>, joined by \<open>bob\<close>, committed by
  \<open>alice\<close>; and the storage after \<open>bob\<close> has revealed the attacked cell as a hit.
\<close>

definition game_created :: Game where
  "game_created =
     \<lparr>id_field = 1, player1 = alice, player2 = zero_addr, player1_root = 0, player2_root = 0,
      stake_amount = 1000000000000000000, current_turn = zero_addr, player1_hits = 0,
      player2_hits = 0, last_move_time = 1000, status = WaitingForOpponent,
      winner = zero_addr, pending_attack_x = 0, pending_attack_y = 0,
      has_pending_attack = False\<rparr>"

definition storage_created :: Storage where
  "storage_created =
     \<lparr>game_count = 1, games = (\<lambda>_. empty_game)(1 := game_created),
      revealed_cells = (\<lambda>_. False), owner = 9, house_balance = 0,
      token_calls = [TransferFrom alice 1000000000000000000]\<rparr>"

definition game_joined :: Game where
  "game_joined = game_created\<lparr>player2 := bob, status := WaitingForCommitments,
     last_move_time := 2000\<rparr>"

definition game_committed :: Game where
  "game_committed = game_joined\<lparr>player1_root := 111, last_move_time := 3000\<rparr>"

definition storage_revealed :: Storage where
  "storage_revealed =
     (storage_with ((game_attacked 1 0)\<lparr>has_pending_attack := False, current_turn := bob,
        last_move_time := 7000\<rparr>))\<lparr>revealed_cells := (\<lambda>_. False)((1, bob, 1) := True)\<rparr>"

section \<open>Properties of the Merkle commitment\<close>

lemma next_level_length: "next_level H xs = Some ys \<Longrightarrow> length xs = 2 * length ys"
  by (induction H xs arbitrary: ys rule: next_level.induct) (auto split: option.splits)

lemma next_level_nth:
  "next_level H xs = Some ys \<Longrightarrow> j < length ys \<Longrightarrow> ys ! j = H (xs ! (2 * j)) (xs ! (2 * j + 1))"
proof (induction H xs arbitrary: ys j rule: next_level.induct)
  case (3 H l r rest)
  then obtain ps where ps: "next_level H rest = Some ps" "ys = H l r # ps"
    by (auto split: option.splits)
  show ?case
  proof (cases j)
    case 0
    then show ?thesis using ps by simp
  next
    case (Suc j')
    then have "j' < length ps" using 3 ps by simp
    from "3.IH" [OF ps(1) this] show ?thesis using ps Suc by simp
  qed
qed simp_all

lemma next_level_even: "even (length xs) \<Longrightarrow> \<exists>ys. next_level H xs = Some ys"
  by (induction H xs rule: next_level.induct) auto

lemma build_levels_single: "build_levels H [r] = Some [[r]]"
  by (simp add: build_levels.simps)

lemma merkle_path:
  "length xs = 2 ^ k \<Longrightarrow> i < length xs \<Longrightarrow>
   \<exists>t r ps. build_levels H xs = Some t \<and> hd t = xs \<and> t \<noteq> [] \<and> last t = [r] \<and> length t = Suc k \<and>
     proof_loop t i = Some ps \<and> length ps = k \<and> verifyProof_loop H (xs ! i) i ps = r"
proof (induction k arbitrary: xs i)
  case 0
  then obtain r where "xs = [r]" by (cases xs) auto
  then show ?case using 0 by (simp add: build_levels.simps)
next
  case (Suc k)
  have "(1::nat) \<le> 2 ^ k" by simp
  then have "(1::nat) < 2 * 2 ^ k" by linarith
  with Suc.prems have len: "1 < length xs" "even (length xs)" by auto
  then obtain ys where ys: "next_level H xs = Some ys" using next_level_even by blast
  then have lys: "length xs = 2 * length ys" by (rule next_level_length)
  then have lyk: "length ys = 2 ^ k" using Suc.prems by simp
  have i2: "i div 2 < length ys" using Suc.prems lys by auto
  from Suc.IH [OF lyk i2] obtain t r ps where
    t: "build_levels H ys = Some t" "hd t = ys" "t \<noteq> []" "last t = [r]" "length t = Suc k"
       "proof_loop t (i div 2) = Some ps" "length ps = k"
       "verifyProof_loop H (ys ! (i div 2)) (i div 2) ps = r"
    by blast
  have bl: "build_levels H xs = Some (xs # t)"
    using len ys t(1) by (subst build_levels.simps) simp
  obtain u us where tu: "t = u # us" using t(3) by (cases t) auto
  have par: "ys ! (i div 2) = H (xs ! (2 * (i div 2))) (xs ! (2 * (i div 2) + 1))"
    using next_level_nth [OF ys i2] .
  show ?case
  proof (cases "i mod 2 = 0")
    case True
    then have e: "2 * (i div 2) = i" by presburger
    have sib: "i + 1 < length xs" using True Suc.prems len lys by presburger
    have "proof_loop (xs # t) i = Some (xs ! (i + 1) # ps)"
      using True sib t(6) tu by simp
    moreover have "verifyProof_loop H (xs ! i) i (xs ! (i + 1) # ps) = r"
      using True par e t(8) by simp
    ultimately show ?thesis using bl t by simp
  next
    case False
    then have e: "2 * (i div 2) + 1 = i" "2 * (i div 2) = i - 1" by presburger+
    have sib: "i - 1 < length xs" using Suc.prems by simp
    have "proof_loop (xs # t) i = Some (xs ! (i - 1) # ps)"
      using False sib t(6) tu by simp
    moreover have "verifyProof_loop H (xs ! i) i (xs ! (i - 1) # ps) = r"
      using False par e t(8) by simp
    ultimately show ?thesis using bl t by simp
  qed
qed

lemma verify_loop_of_nat:
  "i < 2 ^ 32 \<Longrightarrow> verify_loop H c (of_nat i) ps = verifyProof_loop H c i ps"
proof (induction ps arbitrary: i c)
  case Nil
  then show ?case by simp
next
  case (Cons s ps)
  have m: "((of_nat i :: u32) mod 2 = 0) = (i mod 2 = 0)"
    using Cons.prems by (simp add: word_unat_eq_iff unat_mod unat_of_nat)
  have d: "(of_nat i :: u32) div 2 = of_nat (i div 2)"
    using Cons.prems by (simp add: word_unat_eq_iff unat_div unat_of_nat)
  have "i div 2 < 2 ^ 32" using Cons.prems by simp
  from Cons.IH [OF this] show ?case by (simp add: m d)
qed

lemma grid_length:
  "length (concat (map (\<lambda>y. map (f y) [0..<m]) [0..<n])) = n * m"
  by (induction n) simp_all

lemma grid_nth:
  "y < n \<Longrightarrow> x < m \<Longrightarrow> concat (map (\<lambda>y. map (f y) [0..<m]) [0..<n]) ! (y * m + x) = f y x"
proof (induction n)
  case 0
  then show ?case by simp
next
  case (Suc n)
  show ?case
  proof (cases "y < n")
    case True
    then have "y * m + x < n * m"
      using Suc.prems(2) by (metis add.commute mult.commute mult_Suc_right nat_add_left_cancel_less
          Suc_leI mult_le_mono1 less_le_trans)
    then show ?thesis using Suc True by (simp add: nth_append grid_length)
  next
    case False
    then have "y = n" using Suc.prems by simp
    then show ?thesis using Suc.prems by (simp add: nth_append grid_length)
  qed
qed

lemma board_leaves_length: "length (board_leaves H board salt) = 100"
  by (simp add: board_leaves_def grid_length)

lemma board_leaves_nth:
  "x < 10 \<Longrightarrow> y < 10 \<Longrightarrow>
   board_leaves H board salt ! (coordsToIndex x y) = computeLeaf H x y (board ! y ! x) salt"
  unfolding board_leaves_def coordsToIndex_def by (rule grid_nth)

lemma compute_leaf_of_nat:
  "x < 256 \<Longrightarrow> y < 256 \<Longrightarrow> v < 256 \<Longrightarrow>
   compute_leaf H (of_nat x) (of_nat y) (of_nat v) salt = computeLeaf H x y v salt"
  by (simp add: compute_leaf_def computeLeaf_def unat_of_nat)

lemma coords_to_index_of_nat:
  "x < 10 \<Longrightarrow> y < 10 \<Longrightarrow> coords_to_index (of_nat x) (of_nat y) = of_nat (coordsToIndex x y)"
proof -
  assume a: "x < 10" "y < 10"
  have ux: "unat (ucast (of_nat x :: u8) :: u32) = x"
    using a by (simp add: unsigned_ucast_eq unat_of_nat take_bit_nat_eq_self)
  have uy: "unat (ucast (of_nat y :: u8) :: u32) = y"
    using a by (simp add: unsigned_ucast_eq unat_of_nat take_bit_nat_eq_self)
  show ?thesis
    using a by (simp add: coords_to_index_def coordsToIndex_def word_unat_eq_iff unat_of_nat
        unat_word_ariths ux uy)
qed

lemma pad_leaves_length: "length ls \<le> 128 \<Longrightarrow> length (pad_leaves ls) = 128"
  by (simp add: pad_leaves_def)

lemma pad_leaves_nth: "i < length ls \<Longrightarrow> pad_leaves ls ! i = ls ! i"
  by (simp add: pad_leaves_def nth_append)

lemma pad_leaves_padding: "length ls \<le> i \<Longrightarrow> i < 128 \<Longrightarrow> pad_leaves ls ! i = 0"
  by (simp add: pad_leaves_def nth_append)

lemma build_and_prove:
  assumes board: "length board = 10" "list_all (\<lambda>row. length row = 10) board"
      and i: "coordsToIndex x y < 128"
  shows "\<exists>t p. buildMerkleTree H board salt = Some t \<and>
           generateProof (tree t) x y = Some p \<and>
           leafIndex p = coordsToIndex x y \<and>
           leaf p = pad_leaves (board_leaves H board salt) ! coordsToIndex x y \<and>
           length (proof_siblings p) = 7 \<and>
           verifyProof H (root t) (leaf p) (proof_siblings p) (leafIndex p)"
proof -
  let ?xs = "pad_leaves (board_leaves H board salt)"
  let ?i = "coordsToIndex x y"
  have len: "length ?xs = 2 ^ 7" by (simp add: pad_leaves_length board_leaves_length)
  have i': "?i < length ?xs" using i len by simp
  from merkle_path [OF len i', of H] obtain t r ps where
    t: "build_levels H ?xs = Some t" "hd t = ?xs" "t \<noteq> []" "last t = [r]"
       "proof_loop t ?i = Some ps" "length ps = 7" "verifyProof_loop H (?xs ! ?i) ?i ps = r"
    by blast
  obtain u us where tu: "t = u # us" using t(3) by (cases t) auto
  then have u: "u = ?xs" using t(2) by simp
  have b: "buildMerkleTree H board salt =
             Some \<lparr>root = r, leaves = board_leaves H board salt, tree = t\<rparr>"
    using board t(1) t(4) by (simp add: buildMerkleTree_def Let_def)
  have g: "generateProof t x y = Some \<lparr>leaf = ?xs ! ?i, proof_siblings = ps, leafIndex = ?i\<rparr>"
    using tu u i' t(5) by (simp add: generateProof_def Let_def)
  show ?thesis using b g t(6) t(7) by (simp add: verifyProof_def)
qed

subsection \<open>The sample tree\<close>

lemma upt10: "[0..<10] = [0, 1, 2, 3, 4, 5, 6, 7, 8, 9]"
  by (simp add: upt_rec)

lemma rep28: "replicate 28 (0::nat) = [0,0,0,0,0,0,0,0,0,0,0,0,0,0,0,0,0,0,0,0,0,0,0,0,0,0,0,0]"
  by (simp add: numeral_eq_Suc)

lemma sample_next6: "next_level sample_hash sample_level6 = Some sample_level7"
  by (simp add: sample_level6_def sample_level7_def sample_hash_def)

lemma sample_next3: "next_level sample_hash sample_level3 = Some sample_level4"
  by (simp add: sample_level3_def sample_level4_def sample_hash_def)

lemma sample_next2: "next_level sample_hash sample_level2 = Some sample_level3"
  by (simp add: sample_level2_def sample_level3_def sample_hash_def)

lemma sample_next1: "next_level sample_hash sample_level1 = Some sample_level2"
  by (simp add: sample_level1_def sample_level2_def sample_hash_def)

lemma sample_padded: "pad_leaves (board_leaves sample_hash sample_board 12345) = sample_level0"
  by (simp add: pad_leaves_def board_leaves_def upt10 computeLeaf_def sample_hash_def
      sample_board_def sample_level0_def Let_def rep28)

lemma sample_next0: "next_level sample_hash sample_level0 = Some sample_level1"
  by (simp add: sample_level0_def sample_level1_def sample_hash_def)

lemma sample_next4: "next_level sample_hash sample_level4 = Some sample_level5"
  by (simp add: sample_level4_def sample_level5_def sample_hash_def)

lemma sample_next5: "next_level sample_hash sample_level5 = Some sample_level6"
  by (simp add: sample_level5_def sample_level6_def sample_hash_def)

lemma sample_lengths:
  "length sample_level0 = 128" "length sample_level1 = 64" "length sample_level2 = 32"
  "length sample_level3 = 16" "length sample_level4 = 8" "length sample_level5 = 4"
  "length sample_level6 = 2" "length sample_level7 = 1"
  by (simp_all add: sample_level0_def sample_level1_def sample_level2_def sample_level3_def
      sample_level4_def sample_level5_def sample_level6_def sample_level7_def)

lemma build_levels_step:
  "1 < length xs \<Longrightarrow> next_level H xs = Some ys \<Longrightarrow> build_levels H ys = Some t \<Longrightarrow>
   build_levels H xs = Some (xs # t)"
  by (subst build_levels.simps) simp

lemma build_levels_top: "length xs = 1 \<Longrightarrow> build_levels H xs = Some [xs]"
  by (subst build_levels.simps) simp

lemma sample_levels:
  "build_levels sample_hash sample_level0 =
     Some [sample_level0, sample_level1, sample_level2, sample_level3, sample_level4,
           sample_level5, sample_level6, sample_level7]"
proof -
  note n = sample_lengths
  have l7: "build_levels sample_hash sample_level7 = Some [sample_level7]"
    by (rule build_levels_top) (simp add: n)
  have l6: "build_levels sample_hash sample_level6 = Some [sample_level6, sample_level7]"
    by (rule build_levels_step [OF _ sample_next6 l7]) (simp add: n)
  have l5: "build_levels sample_hash sample_level5 =
              Some [sample_level5, sample_level6, sample_level7]"
    by (rule build_levels_step [OF _ sample_next5 l6]) (simp add: n)
  have l4: "build_levels sample_hash sample_level4 =
              Some [sample_level4, sample_level5, sample_level6, sample_level7]"
    by (rule build_levels_step [OF _ sample_next4 l5]) (simp add: n)
  have l3: "build_levels sample_hash sample_level3 =
              Some [sample_level3, sample_level4, sample_level5, sample_level6, sample_level7]"
    by (rule build_levels_step [OF _ sample_next3 l4]) (simp add: n)
  have l2: "build_levels sample_hash sample_level2 =
              Some [sample_level2, sample_level3, sample_level4, sample_level5, sample_level6,
                    sample_level7]"
    by (rule build_levels_step [OF _ sample_next2 l3]) (simp add: n)
  have l1: "build_levels sample_hash sample_level1 =
              Some [sample_level1, sample_level2, sample_level3, sample_level4, sample_level5,
                    sample_level6, sample_level7]"
    by (rule build_levels_step [OF _ sample_next1 l2]) (simp add: n)
  show ?thesis
    by (rule build_levels_step [OF _ sample_next0 l1]) (simp add: n)
qed

lemma sample_tree:
  "buildMerkleTree sample_hash sample_board 12345 =
     Some \<lparr>root = 197089987, leaves = board_leaves sample_hash sample_board 12345,
            tree = [sample_level0, sample_level1, sample_level2, sample_level3, sample_level4,
                    sample_level5, sample_level6, sample_level7]\<rparr>"
proof -
  have b: "length sample_board = 10" "list_all (\<lambda>row. length row = 10) sample_board"
    by (simp_all add: sample_board_def)
  show ?thesis
    unfolding buildMerkleTree_def Let_def sample_padded sample_levels
    using b by (simp add: sample_level7_def)
qed

lemma sample_padding_proof:
  "generateProof [sample_level0, sample_level1, sample_level2, sample_level3, sample_level4,
                    sample_level5, sample_level6, sample_level7] 0 10 =
   Some \<lparr>leaf = 0, proof_siblings = [0, 1, 201945, 21, 85, 12834645, 51044443],
          leafIndex = 100\<rparr>"
  by (simp add: generateProof_def coordsToIndex_def Let_def sample_lengths)
    (simp add: sample_level0_def sample_level1_def sample_level2_def sample_level3_def
      sample_level4_def sample_level5_def sample_level6_def)

lemma sample_cell_proof:
  "generateProof [sample_level0, sample_level1, sample_level2, sample_level3, sample_level4,
                    sample_level5, sample_level6, sample_level7] 1 0 =
   Some \<lparr>leaf = 12388,
          proof_siblings = [12358, 49685, 199785, 800473, 3203153, 12792417, 43956657],
          leafIndex = 1\<rparr>"
  by (simp add: generateProof_def coordsToIndex_def Let_def sample_lengths)
    (simp add: sample_level0_def sample_level1_def sample_level2_def sample_level3_def
      sample_level4_def sample_level5_def sample_level6_def)

subsection \<open>Indices, padding leaves and the replay\<close>

text \<open>
  The index of a cell determines the cell. The verifier accepts whatever root the replay
  ends in; in particular, for every board, the proof the client generates for a padding
  leaf (an index from 100 to 127) is accepted against the tree's root.
\<close>

lemma index_bijection:
  "x < 10 \<Longrightarrow> indexToCoords (coordsToIndex x y) = (x, y)"
  by (simp add: indexToCoords_def coordsToIndex_def)

lemma coordsToIndex_range: "x < 10 \<Longrightarrow> y < 10 \<Longrightarrow> coordsToIndex x y < 100"
  by (simp add: coordsToIndex_def)

lemma padding_leaf_accepted:
  assumes board: "length board = 10" "list_all (\<lambda>row. length row = 10) board"
      and i: "100 \<le> coordsToIndex x y" "coordsToIndex x y < 128"
  shows "\<exists>t p. buildMerkleTree H board salt = Some t \<and>
           generateProof (tree t) x y = Some p \<and> leaf p = 0 \<and>
           length (proof_siblings p) = 7 \<and>
           verify_proof H (root t) 0 (proof_siblings p) (of_nat (coordsToIndex x y))"
proof -
  from build_and_prove [OF board i(2), of H salt] obtain t p where
    tp: "buildMerkleTree H board salt = Some t" "generateProof (tree t) x y = Some p"
        "leafIndex p = coordsToIndex x y"
        "leaf p = pad_leaves (board_leaves H board salt) ! coordsToIndex x y"
        "length (proof_siblings p) = 7"
        "verifyProof H (root t) (leaf p) (proof_siblings p) (leafIndex p)"
    by blast
  have z: "leaf p = 0"
    using tp(4) i by (simp add: pad_leaves_padding board_leaves_length)
  have "coordsToIndex x y < 2 ^ 32" using i(2) by simp
  then have "verify_proof H (root t) 0 (proof_siblings p) (of_nat (coordsToIndex x y))"
    using tp(6) tp(3) z by (simp add: verify_proof_def verifyProof_def verify_loop_of_nat)
  with tp(1,2,5) z show ?thesis by blast
qed

lemma verify_proof_replay: "verify_proof H (verify_loop H l i prf) l prf i"
  by (simp add: verify_proof_def)

subsection \<open>Round trip\<close>

text \<open>
  Claim C2 (round trip). For every 10 by 10 board, every salt and every cell \<open>(x, y)\<close>
  of the board whose value is 0 or 1: the client builds a tree, generates a proof for
  the cell, the leaf of that proof is the leaf the contract computes for the cell, and
  the contract's \<open>verify_proof\<close> accepts the proof against the tree's root at the
  contract's index of the cell.
\<close>

theorem merkle_round_trip:
  assumes board: "length board = 10" "list_all (\<lambda>row. length row = 10) board"
      and cells: "board ! y ! x = 0 \<or> board ! y ! x = 1"
      and xy: "x < 10" "y < 10"
  shows "\<exists>t p. buildMerkleTree H board salt = Some t \<and>
           generateProof (tree t) x y = Some p \<and>
           leaf p = compute_leaf H (of_nat x) (of_nat y) (of_nat (board ! y ! x)) salt \<and>
           verify_proof H (root t) (leaf p) (proof_siblings p)
             (coords_to_index (of_nat x) (of_nat y))"
proof -
  have i: "coordsToIndex x y < 100" using xy by (simp add: coordsToIndex_def)
  then have i128: "coordsToIndex x y < 128" by simp
  from build_and_prove [OF board i128, of H salt] obtain t p where
    tp: "buildMerkleTree H board salt = Some t" "generateProof (tree t) x y = Some p"
        "leafIndex p = coordsToIndex x y"
        "leaf p = pad_leaves (board_leaves H board salt) ! coordsToIndex x y"
        "verifyProof H (root t) (leaf p) (proof_siblings p) (leafIndex p)"
    by blast
  have "leaf p = computeLeaf H x y (board ! y ! x) salt"
    using tp(4) i xy by (simp add: pad_leaves_nth board_leaves_length board_leaves_nth)
  moreover have "board ! y ! x < 256" using cells by auto
  ultimately have l: "leaf p = compute_leaf H (of_nat x) (of_nat y) (of_nat (board ! y ! x)) salt"
    using xy by (simp add: compute_leaf_of_nat)
  have "coordsToIndex x y < 2 ^ 32" using i by simp
  then have "verify_proof H (root t) (leaf p) (proof_siblings p) (of_nat (coordsToIndex x y))"
    using tp(5) tp(3) by (simp add: verify_proof_def verifyProof_def verify_loop_of_nat)
  then show ?thesis using tp(1,2) l xy by (auto simp: coords_to_index_of_nat)
qed

text \<open>
  The round trip at the sample board, for the occupied cell \<open>(1, 0)\<close>.
\<close>

theorem merkle_round_trip_witness:
  "\<exists>t p. buildMerkleTree sample_hash sample_board 12345 = Some t \<and>
           generateProof (tree t) 1 0 = Some p \<and>
           leaf p = compute_leaf sample_hash 1 0 1 12345 \<and>
           verify_proof sample_hash (root t) (leaf p) (proof_siblings p) (coords_to_index 1 0)"
proof -
  have b1: "length sample_board = 10" by (simp add: sample_board_def)
  have b2: "list_all (\<lambda>row. length row = 10) sample_board" by (simp add: sample_board_def)
  have c: "sample_board ! 0 ! 1 = 0 \<or> sample_board ! 0 ! 1 = 1" by (simp add: sample_board_def)
  have v: "sample_board ! 0 ! 1 = 1" by (simp add: sample_board_def)
  have x: "(1::nat) < 10" and y: "(0::nat) < 10" by simp_all
  from merkle_round_trip [OF b1 b2 c x y, of sample_hash 12345] show ?thesis
    unfolding v by simp
qed

section \<open>The invariant of reachable storage\<close>

lemma inv_constructor: "inv (constructor own)"
  by (simp add: inv_def constructor_def game_ok_def)

lemma id_empty_game: "id_field empty_game = 0"
  by (simp add: empty_game_def)

lemma game_ok_mono:
  "game_ok n paid g G \<Longrightarrow> n \<le> m \<Longrightarrow> set paid \<subseteq> set paid' \<Longrightarrow> game_ok m paid' g G"
  by (auto simp: game_ok_def)

lemma inv_update:
  assumes "inv s" "game_count s' = game_count s" "games s' = (games s)(g := G)"
    "set (token_calls s) \<subseteq> set (token_calls s')"
    "game_ok (game_count s) (token_calls s') g G"
  shows "inv s'"
  unfolding inv_def
proof
  fix h
  have "game_ok (game_count s) (token_calls s) h (games s h)" using assms(1) by (simp add: inv_def)
  then have "game_ok (game_count s) (token_calls s') h (games s h)"
    using order_refl assms(4) by (rule game_ok_mono)
  then show "game_ok (game_count s') (token_calls s') h (games s' h)"
    using assms(2,3,5) by simp
qed

lemma inv_game: "inv s \<Longrightarrow> game_ok (game_count s) (token_calls s) g (games s g)"
  by (simp add: inv_def)

lemma checked_add_unat: "checked_add a b = Some c \<Longrightarrow> unat c = unat a + unat b"
  by (auto simp: checked_add_def unat_word_ariths split: if_splits)

lemma checked_add_val: "checked_add a b = Some c \<Longrightarrow> c = a + b"
  by (auto simp: checked_add_def split: if_splits)

lemma inv_create_game:
  assumes "inv s" "caller e \<noteq> zero_addr" "create_game e stake s = Inr (i, s')"
  shows "inv s'"
proof -
  from assms(3) obtain n where n: "checked_add (game_count s) 1 = Some n"
    and gc: "game_count s' = n"
    and tc: "token_calls s' = token_calls s @ [TransferFrom (caller e) stake]"
    and gs: "games s' = (games s)(n :=
         \<lparr>id_field = n, player1 = caller e, player2 = zero_addr,
                     player1_root = 0, player2_root = 0, stake_amount = stake,
                     current_turn = zero_addr, player1_hits = 0, player2_hits = 0,
                     last_move_time = block_timestamp e, status = WaitingForOpponent,
                     winner = zero_addr, pending_attack_x = 0, pending_attack_y = 0,
                     has_pending_attack = False\<rparr>)"
    by (auto simp: create_game_def Let_def split: if_splits option.splits)
  from checked_add_unat [OF n] have un: "unat n = unat (game_count s) + 1" by simp
  then have le: "game_count s \<le> n" and nz: "n \<noteq> 0"
    by (auto simp: word_le_nat_alt)
  have sub: "set (token_calls s) \<subseteq> set (token_calls s')" using tc by auto
  show ?thesis
    unfolding inv_def
  proof
    fix g
    from game_ok_mono [OF inv_game [OF assms(1)] le sub]
    have old: "game_ok n (token_calls s') g (games s g)" .
    show "game_ok (game_count s') (token_calls s') g (games s' g)"
      using old nz assms(2) by (simp add: gc gs tc game_ok_def)
  qed
qed

lemma inv_join_game:
  assumes "inv s" "caller e \<noteq> zero_addr" "join_game e g s = Inr s'"
  shows "inv s'"
proof -
  let ?G = "games s g"
  let ?G' = "?G\<lparr>player2 := caller e, status := WaitingForCommitments,
                           last_move_time := block_timestamp e\<rparr>"
  from assms(3) have c: "id_field ?G \<noteq> 0" "status ?G = WaitingForOpponent" "caller e \<noteq> player1 ?G"
    and gc: "game_count s' = game_count s"
    and tc: "token_calls s' = token_calls s @ [TransferFrom (caller e) (stake_amount ?G)]"
    and gs: "games s' = (games s)(g := ?G')"
    by (auto simp: join_game_def Let_def split: if_splits)
  have sub: "set (token_calls s) \<subseteq> set (token_calls s')" using tc by auto
  from game_ok_mono [OF inv_game [OF assms(1)] order_refl sub]
  have "game_ok (game_count s) (token_calls s') g ?G" .
  then have "game_ok (game_count s) (token_calls s') g ?G'"
    using c assms(2) tc by (auto simp: game_ok_def id_empty_game)
  from inv_update [OF assms(1) gc gs sub this] show ?thesis .
qed

lemma inv_commit_board:
  assumes "inv s" "commit_board e g r s = Inr s'"
  shows "inv s'"
proof -
  let ?G = "games s g"
  from assms(2) obtain G' where c: "id_field ?G \<noteq> 0" "status ?G = WaitingForCommitments"
    and gc: "game_count s' = game_count s"
    and tc: "token_calls s' = token_calls s"
    and gs: "games s' = (games s)(g := G')"
    and G': "id_field G' = id_field ?G" "player1 G' = player1 ?G" "player2 G' = player2 ?G"
       "has_pending_attack G' = has_pending_attack ?G" "stake_amount G' = stake_amount ?G"
       "status G' = InProgress \<or> status G' = WaitingForCommitments"
    by (auto simp: commit_board_def Let_def split: if_splits)
  have sub: "set (token_calls s) \<subseteq> set (token_calls s')" using tc by auto
  have "game_ok (game_count s) (token_calls s) g ?G" using assms(1) by (rule inv_game)
  then have "game_ok (game_count s) (token_calls s') g G'"
    using c G' tc by (auto simp: game_ok_def id_empty_game)
  from inv_update [OF assms(1) gc gs sub this] show ?thesis .
qed

lemma inv_attack:
  assumes "inv s" "attack e g x y s = Inr s'"
  shows "inv s'"
proof -
  let ?G = "games s g"
  from assms(2) obtain d where c: "id_field ?G \<noteq> 0" "status ?G = InProgress" "x < 10" "y < 10"
    and gc: "game_count s' = game_count s"
    and tc: "token_calls s' = token_calls s"
    and gs: "games s' = (games s)(g := ?G\<lparr>pending_attack_x := x, pending_attack_y := y,
                               has_pending_attack := True, current_turn := d,
                               last_move_time := block_timestamp e\<rparr>)"
    by (auto simp: attack_def Let_def BOARD_SIZE_def split: if_splits)
  have sub: "set (token_calls s) \<subseteq> set (token_calls s')" using tc by auto
  have "game_ok (game_count s) (token_calls s) g ?G" using assms(1) by (rule inv_game)
  then have "game_ok (game_count s) (token_calls s') g (?G\<lparr>pending_attack_x := x,
                               pending_attack_y := y,
                               has_pending_attack := True, current_turn := d,
                               last_move_time := block_timestamp e\<rparr>)"
    using c tc by (auto simp: game_ok_def id_empty_game)
  from inv_update [OF assms(1) gc gs sub this] show ?thesis .
qed

lemma inv_reveal:
  assumes "inv s" "reveal H e g x y is_hit salt prf s = Inr s'"
  shows "inv s'"
proof -
  let ?G = "games s g"
  from assms(2) obtain G' where c: "id_field ?G \<noteq> 0" "status ?G = InProgress"
    and gc: "game_count s' = game_count s"
    and tc: "token_calls s' = token_calls s"
    and gs: "games s' = (games s)(g := G')"
    and G': "id_field G' = id_field ?G" "player1 G' = player1 ?G" "player2 G' = player2 ?G"
       "\<not> has_pending_attack G'" "status G' = status ?G" "stake_amount G' = stake_amount ?G"
    by (auto simp: reveal_def Let_def split: if_splits option.splits)
  have sub: "set (token_calls s) \<subseteq> set (token_calls s')" using tc by auto
  have "game_ok (game_count s) (token_calls s) g ?G" using assms(1) by (rule inv_game)
  then have "game_ok (game_count s) (token_calls s') g G'"
    using c G' tc by (auto simp: game_ok_def id_empty_game)
  from inv_update [OF assms(1) gc gs sub this] show ?thesis .
qed

lemma inv_claim_victory:
  assumes "inv s" "claim_victory e g s = Inr s'"
  shows "inv s'"
proof -
  let ?G = "games s g"
  from assms(2) obtain pay where c: "id_field ?G \<noteq> 0" "status ?G = InProgress"
    and gc: "game_count s' = game_count s"
    and tc: "token_calls s' = token_calls s @ [pay]"
    and gs: "games s' = (games s)(g := ?G\<lparr>status := Finished, winner := caller e\<rparr>)"
    by (auto simp: claim_victory_def Let_def split: if_splits option.splits)
  have sub: "set (token_calls s) \<subseteq> set (token_calls s')" using tc by auto
  from game_ok_mono [OF inv_game [OF assms(1)] order_refl sub]
  have "game_ok (game_count s) (token_calls s') g ?G" .
  then have "game_ok (game_count s) (token_calls s') g (?G\<lparr>status := Finished, winner := caller e\<rparr>)"
    using c by (auto simp: game_ok_def id_empty_game)
  from inv_update [OF assms(1) gc gs sub this] show ?thesis .
qed

lemma inv_claim_timeout:
  assumes "inv s" "claim_timeout e g s = Inr s'"
  shows "inv s'"
proof -
  let ?G = "games s g"
  from assms(2) obtain pay where c: "id_field ?G \<noteq> 0"
      "status ?G = InProgress \<or> status ?G = WaitingForCommitments"
    and gc: "game_count s' = game_count s"
    and tc: "token_calls s' = token_calls s @ [pay]"
    and gs: "games s' = (games s)(g := ?G\<lparr>status := Forfeited, winner := caller e\<rparr>)"
    by (auto simp: claim_timeout_def Let_def split: if_splits option.splits)
  have sub: "set (token_calls s) \<subseteq> set (token_calls s')" using tc by auto
  from game_ok_mono [OF inv_game [OF assms(1)] order_refl sub]
  have "game_ok (game_count s) (token_calls s') g ?G" .
  then have "game_ok (game_count s) (token_calls s') g (?G\<lparr>status := Forfeited, winner := caller e\<rparr>)"
    using c by (auto simp: game_ok_def id_empty_game)
  from inv_update [OF assms(1) gc gs sub this] show ?thesis .
qed

lemma inv_withdraw_house_funds:
  assumes "inv s" "withdraw_house_funds e a s = Inr s'"
  shows "inv s'"
proof -
  from assms(2) have gc: "game_count s' = game_count s" and gs: "games s' = games s"
    and tc: "token_calls s' = token_calls s @ [Transfer (caller e) a]"
    by (auto simp: withdraw_house_funds_def split: if_splits)
  have sub: "set (token_calls s) \<subseteq> set (token_calls s')" using tc by auto
  show ?thesis unfolding inv_def gc gs
    using game_ok_mono [OF inv_game [OF assms(1)] order_refl sub] by blast
qed

lemma inv_transfer_ownership:
  assumes "inv s" "transfer_ownership e a s = Inr s'"
  shows "inv s'"
  using assms by (auto simp: transfer_ownership_def inv_def split: if_splits)

lemma inv_dispatch:
  assumes "inv s" "caller e \<noteq> zero_addr" "dispatch H e c s = Inr s'"
  shows "inv s'"
proof (cases c)
  case (CreateGame stake)
  with assms(3) obtain i where "create_game e stake s = Inr (i, s')"
    by (cases "create_game e stake s") auto
  from inv_create_game [OF assms(1,2) this] show ?thesis .
next
  case (JoinGame g)
  with assms inv_join_game show ?thesis by simp
next
  case (CommitBoard g r)
  with assms inv_commit_board show ?thesis by simp
next
  case (Attack g x y)
  with assms inv_attack show ?thesis by simp
next
  case (Reveal g x y h sa pr)
  with assms inv_reveal show ?thesis by simp
next
  case (ClaimVictory g)
  with assms inv_claim_victory show ?thesis by simp
next
  case (ClaimTimeout g)
  with assms inv_claim_timeout show ?thesis by simp
next
  case (WithdrawHouseFunds a)
  with assms inv_withdraw_house_funds show ?thesis by simp
next
  case (TransferOwnership a)
  with assms inv_transfer_ownership show ?thesis by simp
qed

lemma reachable_inv: "reachable H s \<Longrightarrow> inv s"
  by (induction rule: reachable.induct) (auto intro: inv_constructor inv_dispatch)

section \<open>Properties of the game contract\<close>

subsection \<open>Arithmetic of the pot\<close>

lemma checked_mul_eq:
  "unat a * unat b < 2 ^ LENGTH('a) \<Longrightarrow> checked_mul a b = Some (a * (b :: 'a::len word))"
  by (simp add: checked_mul_def)

lemma checked_add_eq:
  "unat a + unat b < 2 ^ LENGTH('a) \<Longrightarrow> checked_add a b = Some (a + (b :: 'a::len word))"
  by (simp add: checked_add_def)

lemma unat_mul_ok:
  "unat a * unat b < 2 ^ LENGTH('a) \<Longrightarrow> unat (a * (b :: 'a::len word)) = unat a * unat b"
  by (simp add: unat_mult_lem)

lemma pot_arith:
  fixes st :: u256
  assumes "unat st * 200 < 2 ^ 256"
  shows "\<exists>pot scaled payout.
           checked_mul st 2 = Some pot \<and> unat pot = unat st * 2 \<and>
           checked_mul pot HOUSE_FEE_BPS = Some scaled \<and>
           unat (scaled div 10000) = unat st * 200 div 10000 \<and>
           checked_sub pot (scaled div 10000) = Some payout \<and>
           unat payout = unat st * 2 - unat st * 200 div 10000"
proof -
  define pot where "pot = st * 2"
  define scaled where "scaled = pot * 100"
  define fee where "fee = scaled div 10000"
  have a: "unat st * unat (2 :: u256) < 2 ^ LENGTH(256)" using assms by simp
  have 1: "checked_mul st 2 = Some pot" unfolding pot_def using a by (rule checked_mul_eq)
  have 2: "unat pot = unat st * 2" unfolding pot_def using unat_mul_ok [OF a] by simp
  have b: "unat pot * unat (100 :: u256) < 2 ^ LENGTH(256)" using assms 2 by simp
  have 3: "checked_mul pot HOUSE_FEE_BPS = Some scaled"
    unfolding scaled_def HOUSE_FEE_BPS_def using b by (rule checked_mul_eq)
  have 4: "unat scaled = unat st * 200" unfolding scaled_def using unat_mul_ok [OF b] 2 by simp
  have 5: "unat fee = unat st * 200 div 10000"
    unfolding fee_def by (simp add: unat_div 4)
  have le: "fee \<le> pot"
    unfolding word_le_nat_alt 5 2 by simp
  then have 6: "checked_sub pot fee = Some (pot - fee)"
    by (simp add: checked_sub_def)
  have 7: "unat (pot - fee) = unat st * 2 - unat st * 200 div 10000"
    using le by (simp add: unat_sub 5 2)
  show ?thesis using 1 2 3 5 6 7 unfolding fee_def by blast
qed

lemma fee_numbers:
  "checked_mul (1000000000000000000 :: u256) 2 = Some 2000000000000000000"
  "checked_mul (2000000000000000000 :: u256) HOUSE_FEE_BPS = Some 200000000000000000000"
  "(200000000000000000000 :: u256) div 10000 = 20000000000000000"
  "checked_sub (2000000000000000000 :: u256) 20000000000000000 = Some 1980000000000000000"
  by (simp_all add: checked_mul_def checked_sub_def HOUSE_FEE_BPS_def word_le_nat_alt)

lemma sample_storage_game [simp]: "games (storage_with G) 1 = G"
  by (simp add: storage_with_def)

lemma sample_storage_balance [simp]: "house_balance (storage_with G) = 0"
  by (simp add: storage_with_def)

lemma sample_claim_victory:
  "\<exists>s'. claim_victory (tx_env alice 6000) 1 (storage_with (game_in_progress 7 0)) = Inr s'"
  by (simp add: claim_victory_def Let_def game_in_progress_def tx_env_def HITS_TO_WIN_def
      fee_numbers checked_add_def)

subsection \<open>Victory\<close>

text \<open>
  Claim C6 (threshold of \<open>claim_victory\<close>). The threshold constant is 7. For a game in
  progress and a caller who is one of its players: with one hit less than the threshold
  the call panics with \<open>NotEnoughHitsToWin\<close>; with exactly the threshold it goes
  through, the game is \<open>Finished\<close> and the caller is the winner. Going through also
  needs what the payout needs: the token transfer succeeds and the pot, the fee scaling
  and the new house balance fit in 256 bits.
\<close>

theorem claim_victory_threshold:
  assumes "id_field (games s g) \<noteq> 0"
      and "status (games s g) = InProgress"
      and "caller e = player1 (games s g) \<or> caller e = player2 (games s g)"
  shows "HITS_TO_WIN = 7 \<and>
         (caller_hits (games s g) (caller e) = HITS_TO_WIN - 1 \<longrightarrow>
            claim_victory e g s = Inl NotEnoughHitsToWin) \<and>
         (caller_hits (games s g) (caller e) = HITS_TO_WIN \<and> token_success e \<and>
          unat (stake_amount (games s g)) * 200 < 2 ^ 256 \<and>
          unat (house_balance s) + unat (stake_amount (games s g)) * 200 div 10000 < 2 ^ 256 \<longrightarrow>
            (\<exists>s'. claim_victory e g s = Inr s' \<and> status (games s' g) = Finished \<and>
                  winner (games s' g) = caller e))"
proof (intro conjI impI)
  show "HITS_TO_WIN = 7" by (simp add: HITS_TO_WIN_def)
next
  assume "caller_hits (games s g) (caller e) = HITS_TO_WIN - 1"
  then have "\<not> HITS_TO_WIN \<le> caller_hits (games s g) (caller e)"
    by (simp add: HITS_TO_WIN_def)
  then show "claim_victory e g s = Inl NotEnoughHitsToWin"
    using assms by (simp add: claim_victory_def Let_def caller_hits_def)
next
  let ?st = "stake_amount (games s g)"
  assume h: "caller_hits (games s g) (caller e) = HITS_TO_WIN \<and> token_success e \<and>
          unat ?st * 200 < 2 ^ 256 \<and>
          unat (house_balance s) + unat ?st * 200 div 10000 < 2 ^ 256"
  then have ar: "unat ?st * 200 < 2 ^ 256" by simp
  from pot_arith [OF ar] obtain pot scaled payout where
    p: "checked_mul ?st 2 = Some pot" "checked_mul pot HOUSE_FEE_BPS = Some scaled"
       "unat (scaled div 10000) = unat ?st * 200 div 10000"
       "checked_sub pot (scaled div 10000) = Some payout"
    by blast
  have "unat (house_balance s) + unat (scaled div 10000) < 2 ^ LENGTH(256)"
    using h p(3) by simp
  then have hb: "checked_add (house_balance s) (scaled div 10000)
              = Some (house_balance s + scaled div 10000)"
    by (rule checked_add_eq)
  have hits: "HITS_TO_WIN \<le> caller_hits (games s g) (caller e)" using h by simp
  show "\<exists>s'. claim_victory e g s = Inr s' \<and> status (games s' g) = Finished \<and>
                  winner (games s' g) = caller e"
    using assms h hits hb p
    by (simp add: claim_victory_def Let_def caller_hits_def)
qed

text \<open>Six hits are refused and seven accepted, for \<open>alice\<close> in the sample game.\<close>

theorem claim_victory_threshold_witness:
  "claim_victory (tx_env alice 6000) 1 (storage_with (game_in_progress 6 0))
     = Inl NotEnoughHitsToWin \<and>
   (\<exists>s'. claim_victory (tx_env alice 6000) 1 (storage_with (game_in_progress 7 0)) = Inr s' \<and>
         status (games s' 1) = Finished \<and> winner (games s' 1) = alice)"
  using claim_victory_threshold [of "storage_with (game_in_progress 6 0)" 1 "tx_env alice 6000"]
    claim_victory_threshold [of "storage_with (game_in_progress 7 0)" 1 "tx_env alice 6000"]
  by (simp add: game_in_progress_def tx_env_def caller_hits_def HITS_TO_WIN_def)

text \<open>
  Claim C7 (payout). With a stake of \<open>10^18\<close> from each player and the fee of 100 basis
  points, a \<open>claim_victory\<close> that goes through computes the pot \<open>2 * 10^18\<close> and the
  fee \<open>2 * 10^16\<close>, pays \<open>1.98 * 10^18\<close> to the caller, and adds \<open>2 * 10^16\<close> to the
  house balance, without wrapping.
\<close>

theorem claim_victory_payout:
  assumes "stake_amount (games s g) = 1000000000000000000"
      and "claim_victory e g s = Inr s'"
  shows "HOUSE_FEE_BPS = 100 \<and>
         checked_mul (stake_amount (games s g)) 2 = Some 2000000000000000000 \<and>
         (2000000000000000000 * HOUSE_FEE_BPS) div 10000 = 20000000000000000 \<and>
         token_calls s' = token_calls s @ [Transfer (caller e) 1980000000000000000] \<and>
         unat (house_balance s') = unat (house_balance s) + 20000000000000000 \<and>
         status (games s' g) = Finished \<and> winner (games s' g) = caller e"
proof -
  from assms(2) obtain nb where
    nb: "checked_add (house_balance s) 20000000000000000 = Some nb"
    and s': "s' = s\<lparr>games := (games s)(g := (games s g)\<lparr>status := Finished, winner := caller e\<rparr>),
                   house_balance := nb,
                   token_calls := token_calls s @ [Transfer (caller e) 1980000000000000000]\<rparr>"
    by (auto simp: claim_victory_def Let_def assms(1) fee_numbers split: if_splits option.splits)
  from checked_add_unat [OF nb] have "unat nb = unat (house_balance s) + 20000000000000000"
    by simp
  then show ?thesis
    by (simp add: s' assms(1) fee_numbers(1) HOUSE_FEE_BPS_def)
qed

text \<open>The payout of the sample game, won by \<open>alice\<close> with seven hits.\<close>

theorem claim_victory_payout_witness:
  "token_calls (fst (transact sample_hash (tx_env alice 6000) (ClaimVictory 1)
       (storage_with (game_in_progress 7 0))))
     = [TransferFrom alice 1000000000000000000, TransferFrom bob 1000000000000000000,
        Transfer alice 1980000000000000000] \<and>
   house_balance (fst (transact sample_hash (tx_env alice 6000) (ClaimVictory 1)
       (storage_with (game_in_progress 7 0)))) = 20000000000000000"
proof -
  let ?s = "storage_with (game_in_progress 7 0)"
  let ?e = "tx_env alice 6000"
  have st: "stake_amount (games ?s 1) = 1000000000000000000"
    by (simp add: game_in_progress_def)
  obtain s' where ok: "claim_victory ?e 1 ?s = Inr s'"
    using sample_claim_victory by blast
  from claim_victory_payout [OF st ok]
  have "token_calls s' = token_calls ?s @ [Transfer (caller ?e) 1980000000000000000]"
    and "unat (house_balance s') = unat (house_balance ?s) + 20000000000000000"
    by simp_all
  then have "token_calls s' = [TransferFrom alice 1000000000000000000,
        TransferFrom bob 1000000000000000000, Transfer alice 1980000000000000000]"
    and "house_balance s' = 20000000000000000"
    by (simp_all add: storage_with_def tx_env_def word_unat_eq_iff)
  then show ?thesis using ok by (simp add: transact_def)
qed

subsection \<open>The sample game is reachable\<close>

lemma sample_create:
  "dispatch sample_hash (tx_env alice 1000) (CreateGame 1000000000000000000) (constructor 9)
     = Inr storage_created"
  by (simp add: create_game_def tx_env_def constructor_def storage_created_def game_created_def
      MIN_STAKE_def checked_add_def Let_def)

lemma sample_join:
  "dispatch sample_hash (tx_env bob 2000) (JoinGame 1) storage_created
     = Inr (storage_with game_joined)"
  by (simp add: join_game_def tx_env_def storage_created_def storage_with_def game_created_def
      game_joined_def alice_def bob_def Let_def)

lemma sample_commit1:
  "dispatch sample_hash (tx_env alice 3000) (CommitBoard 1 111) (storage_with game_joined)
     = Inr (storage_with game_committed)"
  by (simp add: commit_board_def tx_env_def storage_with_def game_created_def
      game_joined_def game_committed_def alice_def bob_def Let_def)

lemma sample_commit2:
  "dispatch sample_hash (tx_env bob 5001) (CommitBoard 1 197089987) (storage_with game_committed)
     = Inr (storage_with (game_in_progress 0 0))"
  by (simp add: commit_board_def tx_env_def storage_with_def game_created_def
      game_joined_def game_committed_def game_in_progress_def alice_def bob_def Let_def)

lemma sample_attack:
  "dispatch sample_hash (tx_env alice 6000) (Attack 1 1 0) (storage_with (game_in_progress h1 h2))
     = Inr (storage_with (game_attacked h1 h2))"
  by (simp add: attack_def tx_env_def storage_with_def game_attacked_def game_in_progress_def
      alice_def bob_def Let_def BOARD_SIZE_def)

lemma sample_verify:
  "verify_proof sample_hash 197089987 (compute_leaf sample_hash 1 0 1 12345) sample_proof
     (coords_to_index 1 0)"
  by (simp add: verify_proof_def compute_leaf_def sample_hash_def sample_proof_def
      coords_to_index_def)

lemma sample_index: "coords_to_index 1 0 = 1"
  by (simp add: coords_to_index_def)

lemma sample_reveal:
  "dispatch sample_hash (tx_env bob 7000) (Reveal 1 1 0 True 12345 sample_proof)
     (storage_with (game_attacked 0 0)) = Inr storage_revealed"
  using sample_verify [unfolded sample_index]
  by (simp add: reveal_def tx_env_def storage_with_def game_attacked_def game_in_progress_def
      storage_revealed_def alice_def bob_def Let_def checked_add_def sample_index)

lemma tx_env_caller: "caller (tx_env alice t) \<noteq> zero_addr" "caller (tx_env bob t) \<noteq> zero_addr"
  by (simp_all add: tx_env_def alice_def bob_def zero_addr_def)

lemma reachable_in_progress: "reachable sample_hash (storage_with (game_in_progress 0 0))"
proof -
  have "reachable sample_hash (constructor 9)" by (rule reachable.deployed)
  from reachable.step [OF this tx_env_caller(1) sample_create]
  have "reachable sample_hash storage_created" .
  from reachable.step [OF this tx_env_caller(2) sample_join]
  have "reachable sample_hash (storage_with game_joined)" .
  from reachable.step [OF this tx_env_caller(1) sample_commit1]
  have "reachable sample_hash (storage_with game_committed)" .
  from reachable.step [OF this tx_env_caller(2) sample_commit2]
  show ?thesis .
qed

lemma reachable_attacked: "reachable sample_hash (storage_with (game_attacked 0 0))"
  using reachable.step [OF reachable_in_progress tx_env_caller(1) sample_attack] .

subsection \<open>Commitment\<close>

text \<open>
  Claim C3 (\<open>commit_board\<close>). For a game waiting for commitments and a caller who is one
  of its players: if the caller's root is already non-zero the call panics with
  \<open>AlreadyCommitted\<close> and the storage, and so that root, stays as it was; otherwise the
  call goes through, records the root for the caller, leaves the other root alone, and
  the status is \<open>InProgress\<close> exactly when both roots are then non-zero, and stays
  \<open>WaitingForCommitments\<close> otherwise.
\<close>

theorem commit_board_once:
  assumes "id_field (games s g) \<noteq> 0"
      and "status (games s g) = WaitingForCommitments"
      and "caller e = player1 (games s g) \<or> caller e = player2 (games s g)"
  shows "(committed_root (games s g) (caller e) \<noteq> 0 \<longrightarrow>
            transact H e (CommitBoard g r) s = (s, Some AlreadyCommitted)) \<and>
         (committed_root (games s g) (caller e) = 0 \<longrightarrow>
            (\<exists>s'. transact H e (CommitBoard g r) s = (s', None) \<and>
                  (caller e = player1 (games s g) \<longrightarrow>
                     player1_root (games s' g) = r \<and>
                     player2_root (games s' g) = player2_root (games s g)) \<and>
                  (caller e \<noteq> player1 (games s g) \<longrightarrow>
                     player2_root (games s' g) = r \<and>
                     player1_root (games s' g) = player1_root (games s g)) \<and>
                  (status (games s' g) = InProgress \<longleftrightarrow>
                     player1_root (games s' g) \<noteq> 0 \<and> player2_root (games s' g) \<noteq> 0) \<and>
                  (status (games s' g) \<noteq> InProgress \<longrightarrow>
                     status (games s' g) = WaitingForCommitments)))"
  using assms
  by (auto simp: transact_def commit_board_def committed_root_def Let_def)

text \<open>
  In the sample game: a second commitment of \<open>alice\<close> is refused, the commitment of
  \<open>bob\<close> starts the game, and the first commitment of \<open>alice\<close> alone does not.
\<close>

theorem commit_board_once_witness:
  "transact sample_hash (tx_env alice 4000) (CommitBoard 1 333) (storage_with game_committed)
     = (storage_with game_committed, Some AlreadyCommitted) \<and>
   (\<exists>s'. transact sample_hash (tx_env bob 5001) (CommitBoard 1 197089987)
            (storage_with game_committed) = (s', None) \<and>
         player2_root (games s' 1) = 197089987 \<and> player1_root (games s' 1) = 111 \<and>
         status (games s' 1) = InProgress) \<and>
   (\<exists>s'. transact sample_hash (tx_env alice 3000) (CommitBoard 1 111)
            (storage_with game_joined) = (s', None) \<and>
         player1_root (games s' 1) = 111 \<and> player2_root (games s' 1) = 0 \<and>
         status (games s' 1) = WaitingForCommitments)"
proof -
  have c: "id_field game_committed \<noteq> 0" "status game_committed = WaitingForCommitments"
    "player1 game_committed = alice" "player2 game_committed = bob"
    "player1_root game_committed = 111" "player2_root game_committed = 0"
    by (simp_all add: game_committed_def game_joined_def game_created_def)
  have j: "id_field game_joined \<noteq> 0" "status game_joined = WaitingForCommitments"
    "player1 game_joined = alice" "player2 game_joined = bob"
    "player1_root game_joined = 0" "player2_root game_joined = 0"
    by (simp_all add: game_joined_def game_created_def)
  have ab: "alice \<noteq> bob" "bob \<noteq> alice" by (simp_all add: alice_def bob_def)
  from commit_board_once [of "storage_with game_committed" 1 "tx_env alice 4000" sample_hash 333]
  have 1: "transact sample_hash (tx_env alice 4000) (CommitBoard 1 333)
             (storage_with game_committed) = (storage_with game_committed, Some AlreadyCommitted)"
    by (simp add: c tx_env_def committed_root_def)
  from commit_board_once [of "storage_with game_committed" 1 "tx_env bob 5001" sample_hash
      197089987]
  have 2: "\<exists>s'. transact sample_hash (tx_env bob 5001) (CommitBoard 1 197089987)
            (storage_with game_committed) = (s', None) \<and>
         player2_root (games s' 1) = 197089987 \<and> player1_root (games s' 1) = 111 \<and>
         status (games s' 1) = InProgress"
    by (simp add: c ab tx_env_def committed_root_def) auto
  from commit_board_once [of "storage_with game_joined" 1 "tx_env alice 3000" sample_hash 111]
  have 3: "\<exists>s'. transact sample_hash (tx_env alice 3000) (CommitBoard 1 111)
            (storage_with game_joined) = (s', None) \<and>
         player1_root (games s' 1) = 111 \<and> player2_root (games s' 1) = 0 \<and>
         status (games s' 1) = WaitingForCommitments"
    by (simp add: j ab tx_env_def committed_root_def) auto
  from 1 2 3 show ?thesis by blast
qed

subsection \<open>Reveal\<close>

lemma checked_sub_eq: "b \<le> a \<Longrightarrow> checked_sub a b = Some (a - b)"
  by (simp add: checked_sub_def)

lemma reveal_guards:
  assumes "reveal H e g x y is_hit salt prf s = Inr s'"
  shows "id_field (games s g) \<noteq> 0" "status (games s g) = InProgress"
    "has_pending_attack (games s g)" "caller e = current_turn (games s g)"
    "pending_attack_x (games s g) = x" "pending_attack_y (games s g) = y"
    "verify_proof H (committed_root (games s g) (caller e))
       (compute_leaf H x y (if is_hit then 1 else 0) salt) prf (coords_to_index x y)"
proof -
  let ?G = "games s g"
  show 1: "id_field ?G \<noteq> 0"
    using assms by (cases "id_field ?G = 0") (simp_all add: reveal_def)
  show 2: "status ?G = InProgress"
    using assms 1 by (cases "status ?G = InProgress") (simp_all add: reveal_def)
  show 3: "has_pending_attack ?G"
    using assms 1 2 by (cases "has_pending_attack ?G") (simp_all add: reveal_def)
  show 4: "caller e = current_turn ?G"
    using assms 1 2 3 by (cases "caller e = current_turn ?G") (simp_all add: reveal_def)
  show 5: "pending_attack_x ?G = x"
    using assms 1 2 3 4 by (cases "pending_attack_x ?G = x") (auto simp: reveal_def)
  show 6: "pending_attack_y ?G = y"
    using assms 1 2 3 4 5 by (cases "pending_attack_y ?G = y") (auto simp: reveal_def)
  show "verify_proof H (committed_root ?G (caller e))
       (compute_leaf H x y (if is_hit then 1 else 0) salt) prf (coords_to_index x y)"
    using assms 1 2 3 4 5 6
    by (cases "verify_proof H (committed_root ?G (caller e))
       (compute_leaf H x y (if is_hit then 1 else 0) salt) prf (coords_to_index x y)")
      (simp_all add: reveal_def Let_def committed_root_def)
qed

lemma reveal_form:
  assumes "id_field (games s g) \<noteq> 0" "status (games s g) = InProgress"
    "has_pending_attack (games s g)" "caller e = current_turn (games s g)"
    "pending_attack_x (games s g) = x" "pending_attack_y (games s g) = y"
    "verify_proof H (committed_root (games s g) (caller e))
       (compute_leaf H x y (if is_hit then 1 else 0) salt) prf (coords_to_index x y)"
  shows "reveal H e g x y is_hit salt prf s =
    (case (if is_hit then
             (if opponent_of (games s g) (caller e) = player1 (games s g)
              then map_option (\<lambda>h. (games s g)\<lparr>player1_hits := h\<rparr>)
                     (checked_add (player1_hits (games s g)) 1)
              else map_option (\<lambda>h. (games s g)\<lparr>player2_hits := h\<rparr>)
                     (checked_add (player2_hits (games s g)) 1))
           else Some (games s g)) of
       None \<Rightarrow> Inl Overflow
     | Some game1 \<Rightarrow>
         Inr (s\<lparr>revealed_cells :=
                 (revealed_cells s)((g, caller e, coords_to_index x y) := True),
               games := (games s)(g :=
                 game1\<lparr>has_pending_attack := False, current_turn := caller e,
                       last_move_time := block_timestamp e\<rparr>)\<rparr>))"
  using assms(1-3) assms(4) [symmetric] assms(5-7)
  by (simp add: reveal_def Let_def committed_root_def opponent_of_def)

lemma reveal_Inr_effect:
  assumes "reveal H e g x y is_hit salt prf s = Inr s'"
  shows "has_pending_attack (games s g) \<and>
         pending_attack_x (games s g) = x \<and> pending_attack_y (games s g) = y \<and>
         caller e = current_turn (games s g) \<and>
         revealed_cells s' (g, caller e, coords_to_index x y) \<and>
         player1 (games s' g) = player1 (games s g) \<and>
         player2 (games s' g) = player2 (games s g) \<and>
         unat (caller_hits (games s' g) (opponent_of (games s g) (caller e))) =
           unat (caller_hits (games s g) (opponent_of (games s g) (caller e))) +
           (if is_hit then 1 else 0) \<and>
         (if opponent_of (games s g) (caller e) = player1 (games s g)
          then player2_hits (games s' g) = player2_hits (games s g)
          else player1_hits (games s' g) = player1_hits (games s g)) \<and>
         \<not> has_pending_attack (games s' g) \<and>
         current_turn (games s' g) = caller e"
proof -
  let ?G = "games s g"
  note pre = reveal_guards [OF assms]
  note form = reveal_form [OF pre]
  show ?thesis
  proof (cases is_hit)
    case False
    with assms form have s': "s' = s\<lparr>revealed_cells :=
                 (revealed_cells s)((g, caller e, coords_to_index x y) := True),
               games := (games s)(g :=
                 ?G\<lparr>has_pending_attack := False, current_turn := caller e,
                       last_move_time := block_timestamp e\<rparr>)\<rparr>"
      by simp
    show ?thesis using pre(3-6) False by (simp add: s' caller_hits_def)
  next
    case True
    show ?thesis
    proof (cases "opponent_of ?G (caller e) = player1 ?G")
      case p1: True
      from assms form True p1 obtain h where h: "checked_add (player1_hits ?G) 1 = Some h"
        and s': "s' = s\<lparr>revealed_cells :=
                            (revealed_cells s)((g, caller e, coords_to_index x y) := True),
                          games := (games s)(g :=
                            ?G\<lparr>player1_hits := h, has_pending_attack := False,
                                  current_turn := caller e,
                                  last_move_time := block_timestamp e\<rparr>)\<rparr>"
        by (cases "checked_add (player1_hits ?G) 1") simp_all
      from checked_add_unat [OF h] have "unat h = unat (player1_hits ?G) + 1" by simp
      then show ?thesis using pre(3-6) True p1 by (simp add: s' caller_hits_def)
    next
      case p2: False
      from assms form True p2 obtain h where h: "checked_add (player2_hits ?G) 1 = Some h"
        and s': "s' = s\<lparr>revealed_cells :=
                            (revealed_cells s)((g, caller e, coords_to_index x y) := True),
                          games := (games s)(g :=
                            ?G\<lparr>player2_hits := h, has_pending_attack := False,
                                  current_turn := caller e,
                                  last_move_time := block_timestamp e\<rparr>)\<rparr>"
        by (cases "checked_add (player2_hits ?G) 1") simp_all
      from checked_add_unat [OF h] have "unat h = unat (player2_hits ?G) + 1" by simp
      then show ?thesis using pre(3-6) True p2 by (simp add: s' caller_hits_def)
    qed
  qed
qed

lemma reveal_goes_through:
  assumes "id_field (games s g) \<noteq> 0" "status (games s g) = InProgress"
    "has_pending_attack (games s g)" "caller e = current_turn (games s g)"
    "pending_attack_x (games s g) = x" "pending_attack_y (games s g) = y"
    "verify_proof H (committed_root (games s g) (caller e))
       (compute_leaf H x y (if is_hit then 1 else 0) salt) prf (coords_to_index x y)"
    "is_hit \<longrightarrow> unat (caller_hits (games s g) (opponent_of (games s g) (caller e))) < 255"
  shows "\<exists>s'. reveal H e g x y is_hit salt prf s = Inr s'"
proof -
  let ?G = "games s g"
  note form = reveal_form [OF assms(1-7)]
  show ?thesis
  proof (cases is_hit)
    case False
    with form show ?thesis by simp
  next
    case True
    show ?thesis
    proof (cases "opponent_of ?G (caller e) = player1 ?G")
      case p1: True
      with assms(8) True have "unat (player1_hits ?G) + unat (1 :: u8) < 2 ^ LENGTH(8)"
        by (simp add: caller_hits_def)
      from checked_add_eq [OF this] form True p1 show ?thesis by simp
    next
      case p2: False
      with assms(8) True have "unat (player2_hits ?G) + unat (1 :: u8) < 2 ^ LENGTH(8)"
        by (simp add: caller_hits_def)
      from checked_add_eq [OF this] form True p2 show ?thesis by simp
    qed
  qed
qed

text \<open>
  Claim C4 (\<open>reveal\<close>). For a game in progress with a pending attack at \<open>(x, y)\<close>, a
  reveal of that cell by the party whose turn it is (the defender), with a proof that
  \<open>verify_proof\<close> accepts against the defender's root, goes through, unless it is a hit
  and the attacker's counter already stands at 255. It marks the cell of index
  \<open>y * 10 + x\<close> as revealed for the caller, raises the hit counter of the other party
  (the attacker) by one if \<open>is_hit\<close> and by nothing otherwise, leaves the caller's own
  counter alone, clears the pending attack, and gives the turn to the caller. And every
  reveal that goes through was such a call and has these effects.
\<close>

theorem reveal_effect:
  "(id_field (games s g) \<noteq> 0 \<and> status (games s g) = InProgress \<and>
          has_pending_attack (games s g) \<and>
          pending_attack_x (games s g) = x \<and> pending_attack_y (games s g) = y \<and>
          caller e = current_turn (games s g) \<and>
          verify_proof H (committed_root (games s g) (caller e))
            (compute_leaf H x y (if is_hit then 1 else 0) salt) prf (coords_to_index x y) \<and>
          (is_hit \<longrightarrow>
             unat (caller_hits (games s g) (opponent_of (games s g) (caller e))) < 255) \<longrightarrow>
          (\<exists>s'. reveal H e g x y is_hit salt prf s = Inr s' \<and>
            revealed_cells s' (g, caller e, coords_to_index x y) \<and>
            player1 (games s' g) = player1 (games s g) \<and>
            player2 (games s' g) = player2 (games s g) \<and>
            unat (caller_hits (games s' g) (opponent_of (games s g) (caller e))) =
              unat (caller_hits (games s g) (opponent_of (games s g) (caller e))) +
              (if is_hit then 1 else 0) \<and>
            (if opponent_of (games s g) (caller e) = player1 (games s g)
             then player2_hits (games s' g) = player2_hits (games s g)
             else player1_hits (games s' g) = player1_hits (games s g)) \<and>
            \<not> has_pending_attack (games s' g) \<and>
            current_turn (games s' g) = caller e)) \<and>
   (reveal H e g x y is_hit salt prf s = Inr t \<longrightarrow>
          id_field (games s g) \<noteq> 0 \<and> status (games s g) = InProgress \<and>
          has_pending_attack (games s g) \<and>
          pending_attack_x (games s g) = x \<and> pending_attack_y (games s g) = y \<and>
          caller e = current_turn (games s g) \<and>
          verify_proof H (committed_root (games s g) (caller e))
            (compute_leaf H x y (if is_hit then 1 else 0) salt) prf (coords_to_index x y) \<and>
            revealed_cells t (g, caller e, coords_to_index x y) \<and>
            player1 (games t g) = player1 (games s g) \<and>
            player2 (games t g) = player2 (games s g) \<and>
            unat (caller_hits (games t g) (opponent_of (games s g) (caller e))) =
              unat (caller_hits (games s g) (opponent_of (games s g) (caller e))) +
              (if is_hit then 1 else 0) \<and>
            (if opponent_of (games s g) (caller e) = player1 (games s g)
             then player2_hits (games t g) = player2_hits (games s g)
             else player1_hits (games t g) = player1_hits (games s g)) \<and>
            \<not> has_pending_attack (games t g) \<and>
            current_turn (games t g) = caller e)"
proof (rule conjI; rule impI)
  assume a: "id_field (games s g) \<noteq> 0 \<and> status (games s g) = InProgress \<and>
          has_pending_attack (games s g) \<and>
          pending_attack_x (games s g) = x \<and> pending_attack_y (games s g) = y \<and>
          caller e = current_turn (games s g) \<and>
          verify_proof H (committed_root (games s g) (caller e))
            (compute_leaf H x y (if is_hit then 1 else 0) salt) prf (coords_to_index x y) \<and>
          (is_hit \<longrightarrow>
             unat (caller_hits (games s g) (opponent_of (games s g) (caller e))) < 255)"
  then obtain s' where r: "reveal H e g x y is_hit salt prf s = Inr s'"
    using reveal_goes_through [of s g e x y H is_hit salt "prf"] by blast
  from reveal_Inr_effect [OF r] r
  show "\<exists>s'. reveal H e g x y is_hit salt prf s = Inr s' \<and>
            revealed_cells s' (g, caller e, coords_to_index x y) \<and>
            player1 (games s' g) = player1 (games s g) \<and>
            player2 (games s' g) = player2 (games s g) \<and>
            unat (caller_hits (games s' g) (opponent_of (games s g) (caller e))) =
              unat (caller_hits (games s g) (opponent_of (games s g) (caller e))) +
              (if is_hit then 1 else 0) \<and>
            (if opponent_of (games s g) (caller e) = player1 (games s g)
             then player2_hits (games s' g) = player2_hits (games s g)
             else player1_hits (games s' g) = player1_hits (games s g)) \<and>
            \<not> has_pending_attack (games s' g) \<and>
            current_turn (games s' g) = caller e"
    by blast
next
  assume r: "reveal H e g x y is_hit salt prf s = Inr t"
  from reveal_guards [OF r] reveal_Inr_effect [OF r]
  show "id_field (games s g) \<noteq> 0 \<and> status (games s g) = InProgress \<and>
          has_pending_attack (games s g) \<and>
          pending_attack_x (games s g) = x \<and> pending_attack_y (games s g) = y \<and>
          caller e = current_turn (games s g) \<and>
          verify_proof H (committed_root (games s g) (caller e))
            (compute_leaf H x y (if is_hit then 1 else 0) salt) prf (coords_to_index x y) \<and>
            revealed_cells t (g, caller e, coords_to_index x y) \<and>
            player1 (games t g) = player1 (games s g) \<and>
            player2 (games t g) = player2 (games s g) \<and>
            unat (caller_hits (games t g) (opponent_of (games s g) (caller e))) =
              unat (caller_hits (games s g) (opponent_of (games s g) (caller e))) +
              (if is_hit then 1 else 0) \<and>
            (if opponent_of (games s g) (caller e) = player1 (games s g)
             then player2_hits (games t g) = player2_hits (games s g)
             else player1_hits (games t g) = player1_hits (games s g)) \<and>
            \<not> has_pending_attack (games t g) \<and>
            current_turn (games t g) = caller e"
    by blast
qed

text \<open>
  In the sample game \<open>bob\<close> reveals the cell \<open>(1, 0)\<close>, attacked by \<open>alice\<close>, as a hit,
  with the proof of the sample tree: the call goes through and \<open>alice\<close> has one hit.
\<close>

theorem reveal_effect_witness:
  "\<exists>s'. reveal sample_hash (tx_env bob 7000) 1 1 0 True 12345 sample_proof
           (storage_with (game_attacked 0 0)) = Inr s' \<and>
        revealed_cells s' (1, bob, 1) \<and>
        unat (player1_hits (games s' 1)) = 1 \<and>
        player2_hits (games s' 1) = 0 \<and>
        \<not> has_pending_attack (games s' 1) \<and>
        current_turn (games s' 1) = bob"
proof -
  let ?s = "storage_with (game_attacked 0 0)"
  let ?e = "tx_env bob 7000"
  have a: "opponent_of (game_attacked 0 0) bob = alice"
    "player1 (game_attacked 0 0) = alice" "player1_hits (game_attacked 0 0) = 0"
    "player2_hits (game_attacked 0 0) = 0" "committed_root (game_attacked 0 0) bob = 197089987"
    "id_field (game_attacked 0 0) \<noteq> 0" "status (game_attacked 0 0) = InProgress"
    "has_pending_attack (game_attacked 0 0)" "pending_attack_x (game_attacked 0 0) = 1"
    "pending_attack_y (game_attacked 0 0) = 0" "current_turn (game_attacked 0 0) = bob"
    by (simp_all add: opponent_of_def committed_root_def game_attacked_def game_in_progress_def
        alice_def bob_def)
  have c: "caller ?e = bob" by (simp add: tx_env_def)
  have guards: "id_field (games ?s 1) \<noteq> 0 \<and> status (games ?s 1) = InProgress \<and>
          has_pending_attack (games ?s 1) \<and>
          pending_attack_x (games ?s 1) = 1 \<and> pending_attack_y (games ?s 1) = 0 \<and>
          caller ?e = current_turn (games ?s 1) \<and>
          verify_proof sample_hash (committed_root (games ?s 1) (caller ?e))
            (compute_leaf sample_hash 1 0 (if True then 1 else 0) 12345) sample_proof
            (coords_to_index 1 0) \<and>
          (True \<longrightarrow>
             unat (caller_hits (games ?s 1) (opponent_of (games ?s 1) (caller ?e))) < 255)"
    using sample_verify by (simp add: a c caller_hits_def)
  from reveal_effect [of ?s 1 1 0 ?e sample_hash True 12345 sample_proof, THEN conjunct1,
      THEN mp, OF guards]
  show ?thesis
    by (auto simp: a c caller_hits_def sample_index)
qed

subsection \<open>Timeout\<close>

text \<open>
  Claim C8 (timeout boundary). The timeout is 86400 seconds. For a game that is waiting
  for commitments or in progress, a caller who is one of its players, a timed-out
  counterparty, and a clock that has not gone back: \<open>claim_timeout\<close> panics with
  \<open>TimeoutNotReached\<close> while the elapsed time is below the timeout, and goes through
  when it equals the timeout, provided the payout goes through (the token transfer
  succeeds and twice the stake fits in 256 bits).
\<close>

theorem claim_timeout_boundary:
  assumes "id_field (games s g) \<noteq> 0"
      and "status (games s g) = WaitingForCommitments \<or> status (games s g) = InProgress"
      and "caller e = player1 (games s g) \<or> caller e = player2 (games s g)"
      and "timed_out_player (games s g) (caller e) \<noteq> zero_addr"
      and "last_move_time (games s g) \<le> block_timestamp e"
  shows "DEFAULT_TIMEOUT = 86400 \<and>
         (unat (block_timestamp e) - unat (last_move_time (games s g)) < unat DEFAULT_TIMEOUT \<longrightarrow>
            claim_timeout e g s = Inl TimeoutNotReached) \<and>
         (unat (block_timestamp e) - unat (last_move_time (games s g)) = unat DEFAULT_TIMEOUT \<and>
          token_success e \<and> unat (stake_amount (games s g)) * 2 < 2 ^ 256 \<longrightarrow>
            (\<exists>s'. claim_timeout e g s = Inr s' \<and> status (games s' g) = Forfeited \<and>
                  winner (games s' g) = caller e))"
proof (intro conjI impI)
  show "DEFAULT_TIMEOUT = 86400" by (simp add: DEFAULT_TIMEOUT_def)
next
  let ?G = "games s g"
  let ?el = "block_timestamp e - last_move_time ?G"
  have sub: "checked_sub (block_timestamp e) (last_move_time ?G) = Some ?el"
    using assms(5) by (rule checked_sub_eq)
  have el: "unat ?el = unat (block_timestamp e) - unat (last_move_time ?G)"
    using assms(5) by (simp add: unat_sub)
  {
    assume "unat (block_timestamp e) - unat (last_move_time ?G) < unat DEFAULT_TIMEOUT"
    then have "\<not> DEFAULT_TIMEOUT \<le> ?el" by (simp add: word_le_nat_alt el)
    then show "claim_timeout e g s = Inl TimeoutNotReached"
      using assms(1-4) sub by (simp add: claim_timeout_def Let_def)
  }
  {
    assume h: "unat (block_timestamp e) - unat (last_move_time ?G) = unat DEFAULT_TIMEOUT \<and>
          token_success e \<and> unat (stake_amount ?G) * 2 < 2 ^ 256"
    then have ge: "DEFAULT_TIMEOUT \<le> ?el" by (simp add: word_le_nat_alt el)
    have "unat (stake_amount ?G) * unat (2 :: u256) < 2 ^ LENGTH(256)" using h by simp
    then have pot: "checked_mul (stake_amount ?G) 2 = Some (stake_amount ?G * 2)"
      by (rule checked_mul_eq)
    show "\<exists>s'. claim_timeout e g s = Inr s' \<and> status (games s' g) = Forfeited \<and>
                  winner (games s' g) = caller e"
      using assms(1-4) sub ge pot h by (simp add: claim_timeout_def Let_def)
  }
qed

text \<open>
  In the sample game, attacked at time 6000: refused at 92399, accepted at 92400.
\<close>

theorem claim_timeout_boundary_witness:
  "claim_timeout (tx_env alice 92399) 1 (storage_with (game_attacked 0 0))
     = Inl TimeoutNotReached \<and>
   (\<exists>s'. claim_timeout (tx_env alice 92400) 1 (storage_with (game_attacked 0 0)) = Inr s' \<and>
         status (games s' 1) = Forfeited \<and> winner (games s' 1) = alice)"
proof -
  have g: "id_field (game_attacked 0 0) \<noteq> 0" "status (game_attacked 0 0) = InProgress"
    "player1 (game_attacked 0 0) = alice" "last_move_time (game_attacked 0 0) = 6000"
    "timed_out_player (game_attacked 0 0) alice \<noteq> zero_addr"
    "stake_amount (game_attacked 0 0) = 1000000000000000000"
    by (simp_all add: game_attacked_def game_in_progress_def timed_out_player_def alice_def
        bob_def zero_addr_def)
  from claim_timeout_boundary [of "storage_with (game_attacked 0 0)" 1 "tx_env alice 92399"]
  have 1: "claim_timeout (tx_env alice 92399) 1 (storage_with (game_attacked 0 0))
     = Inl TimeoutNotReached"
    by (simp add: g tx_env_def DEFAULT_TIMEOUT_def word_le_nat_alt)
  from claim_timeout_boundary [of "storage_with (game_attacked 0 0)" 1 "tx_env alice 92400"]
  have 2: "\<exists>s'. claim_timeout (tx_env alice 92400) 1 (storage_with (game_attacked 0 0)) = Inr s' \<and>
         status (games s' 1) = Forfeited \<and> winner (games s' 1) = alice"
    by (simp add: g tx_env_def DEFAULT_TIMEOUT_def word_le_nat_alt)
  from 1 2 show ?thesis by blast
qed

subsection \<open>What a call that goes through tells\<close>

lemma join_game_Inr:
  assumes "join_game e g s = Inr s'"
  shows "id_field (games s g) \<noteq> 0" "status (games s g) = WaitingForOpponent"
    "caller e \<noteq> player1 (games s g)" "\<And>h. h \<noteq> g \<Longrightarrow> games s' h = games s h"
  using assms by (auto simp: join_game_def Let_def split: if_splits)

lemma commit_board_Inr:
  assumes "commit_board e g r s = Inr s'"
  shows "id_field (games s g) \<noteq> 0" "status (games s g) = WaitingForCommitments"
    "\<And>h. h \<noteq> g \<Longrightarrow> games s' h = games s h"
  using assms by (auto simp: commit_board_def Let_def split: if_splits)

lemma attack_Inr:
  assumes "attack e g x y s = Inr s'"
  shows "id_field (games s g) \<noteq> 0" "status (games s g) = InProgress"
    "\<not> has_pending_attack (games s g)" "\<And>h. h \<noteq> g \<Longrightarrow> games s' h = games s h"
  using assms by (auto simp: attack_def Let_def split: if_splits)

lemma reveal_frame:
  assumes "reveal H e g x y is_hit salt prf s = Inr s'" "h \<noteq> g"
  shows "games s' h = games s h"
proof -
  from assms(1) reveal_form [OF reveal_guards [OF assms(1)]]
  obtain G' where "s' = s\<lparr>revealed_cells :=
                 (revealed_cells s)((g, caller e, coords_to_index x y) := True),
               games := (games s)(g := G')\<rparr>"
    by (auto split: option.splits)
  then show ?thesis using assms(2) by simp
qed

lemma claim_victory_Inr:
  assumes "claim_victory e g s = Inr s'"
  shows "id_field (games s g) \<noteq> 0" "status (games s g) = InProgress"
    "caller e = player1 (games s g) \<or> caller e = player2 (games s g)"
    "HITS_TO_WIN \<le> caller_hits (games s g) (caller e)"
    "\<And>h. h \<noteq> g \<Longrightarrow> games s' h = games s h"
proof -
  let ?G = "games s g"
  show 1: "id_field ?G \<noteq> 0"
    using assms by (cases "id_field ?G = 0") (simp_all add: claim_victory_def)
  show 2: "status ?G = InProgress"
    using assms 1 by (cases "status ?G = InProgress") (simp_all add: claim_victory_def)
  show 3: "caller e = player1 ?G \<or> caller e = player2 ?G"
    using assms 1 2
    by (cases "caller e = player1 ?G \<or> caller e = player2 ?G")
      (simp_all add: claim_victory_def Let_def)
  show 4: "HITS_TO_WIN \<le> caller_hits ?G (caller e)"
    using assms 1 2 3
    by (cases "HITS_TO_WIN \<le> caller_hits ?G (caller e)")
      (auto simp: claim_victory_def Let_def caller_hits_def)
  fix h assume "h \<noteq> g"
  with assms 1 2 show "games s' h = games s h"
    by (auto simp: claim_victory_def Let_def split: if_splits option.splits)
qed

lemma claim_timeout_Inr:
  assumes "claim_timeout e g s = Inr s'"
  shows "id_field (games s g) \<noteq> 0"
    "status (games s g) = WaitingForCommitments \<or> status (games s g) = InProgress"
    "caller e = player1 (games s g) \<or> caller e = player2 (games s g)"
    "timed_out_player (games s g) (caller e) \<noteq> zero_addr"
    "last_move_time (games s g) \<le> block_timestamp e"
    "DEFAULT_TIMEOUT \<le> block_timestamp e - last_move_time (games s g)"
    "\<exists>pot. (if status (games s g) = WaitingForCommitments \<and> player2 (games s g) = zero_addr
            then Some (stake_amount (games s g))
            else checked_mul (stake_amount (games s g)) 2) = Some pot \<and>
           token_calls s' = token_calls s @ [Transfer (caller e) pot]"
    "\<And>h. h \<noteq> g \<Longrightarrow> games s' h = games s h"
proof -
  let ?G = "games s g"
  show 1: "id_field ?G \<noteq> 0"
    using assms by (cases "id_field ?G = 0") (simp_all add: claim_timeout_def)
  show 2: "status ?G = WaitingForCommitments \<or> status ?G = InProgress"
    using assms 1
    by (cases "status ?G = WaitingForCommitments \<or> status ?G = InProgress")
      (simp_all add: claim_timeout_def)
  show 3: "caller e = player1 ?G \<or> caller e = player2 ?G"
    using assms 1 2
    by (cases "caller e = player1 ?G \<or> caller e = player2 ?G")
      (simp_all add: claim_timeout_def Let_def)
  show 4: "timed_out_player ?G (caller e) \<noteq> zero_addr"
    using assms 1 2 3
    by (cases "timed_out_player ?G (caller e) = zero_addr")
      (simp_all add: claim_timeout_def Let_def)
  from assms 1 2 3 4 have r: "(case checked_sub (block_timestamp e) (last_move_time ?G) of
           None \<Rightarrow> Inl Overflow
         | Some elapsed \<Rightarrow>
        (if \<not> DEFAULT_TIMEOUT \<le> elapsed then Inl TimeoutNotReached
         else
          (case (if status ?G = WaitingForCommitments \<and> player2 ?G = zero_addr
                 then Some (stake_amount ?G)
                 else checked_mul (stake_amount ?G) 2) of
             None \<Rightarrow> Inl Overflow
           | Some total_pot \<Rightarrow>
          (if \<not> token_success e then Inl PrizeTransferFailed
           else Inr (s\<lparr>games := (games s)(g :=
                           ?G\<lparr>status := Forfeited, winner := caller e\<rparr>),
                       token_calls := token_calls s @ [Transfer (caller e) total_pot]\<rparr>))))) = Inr s'"
    by (simp add: claim_timeout_def Let_def)
  show 5: "last_move_time ?G \<le> block_timestamp e"
    using r by (cases "last_move_time ?G \<le> block_timestamp e") (simp_all add: checked_sub_def)
  then have sub: "checked_sub (block_timestamp e) (last_move_time ?G)
                  = Some (block_timestamp e - last_move_time ?G)"
    by (rule checked_sub_eq)
  show 6: "DEFAULT_TIMEOUT \<le> block_timestamp e - last_move_time ?G"
    using r unfolding sub
    by (cases "DEFAULT_TIMEOUT \<le> block_timestamp e - last_move_time ?G") simp_all
  from r 6 obtain pot where pot:
    "(if status ?G = WaitingForCommitments \<and> player2 ?G = zero_addr
            then Some (stake_amount ?G)
            else checked_mul (stake_amount ?G) 2) = Some pot"
    and s': "s' = s\<lparr>games := (games s)(g := ?G\<lparr>status := Forfeited, winner := caller e\<rparr>),
                       token_calls := token_calls s @ [Transfer (caller e) pot]\<rparr>"
    unfolding sub
    by (cases "if status ?G = WaitingForCommitments \<and> player2 ?G = zero_addr
            then Some (stake_amount ?G)
            else checked_mul (stake_amount ?G) 2"; cases "token_success e") simp_all
  show "\<exists>pot. (if status ?G = WaitingForCommitments \<and> player2 ?G = zero_addr
            then Some (stake_amount ?G)
            else checked_mul (stake_amount ?G) 2) = Some pot \<and>
           token_calls s' = token_calls s @ [Transfer (caller e) pot]"
    using pot s' by simp
  fix h assume "h \<noteq> g"
  then show "games s' h = games s h" using s' by simp
qed

lemma withdraw_house_funds_frame: "withdraw_house_funds e a s = Inr s' \<Longrightarrow> games s' = games s"
  by (auto simp: withdraw_house_funds_def split: if_splits)

lemma transfer_ownership_frame: "transfer_ownership e a s = Inr s' \<Longrightarrow> games s' = games s"
  by (auto simp: transfer_ownership_def split: if_splits)

lemma create_game_frame:
  assumes "inv s" "create_game e stake s = Inr (i, s')" "games s g \<noteq> empty_game"
  shows "games s' g = games s g"
proof -
  from assms(2) obtain G where n: "checked_add (game_count s) 1 = Some i"
    and gs: "games s' = (games s)(i := G)"
    by (auto simp: create_game_def Let_def split: if_splits option.splits)
  from checked_add_unat [OF n] have "unat i = unat (game_count s) + 1" by simp
  moreover have "g \<le> game_count s"
    using inv_game [OF assms(1), of g] assms(3) by (simp add: game_ok_def)
  ultimately have "g \<noteq> i" by (auto simp: word_le_nat_alt)
  then show ?thesis using gs by simp
qed

lemma checked_mul_unat: "checked_mul a b = Some c \<Longrightarrow> unat c = unat a * unat b"
  by (auto simp: checked_mul_def unat_mult_lem split: if_splits)

lemma create_game_Inr:
  "create_game e stake s = Inr r \<Longrightarrow> MIN_STAKE \<le> stake \<and> token_success e"
  by (auto simp: create_game_def split: if_splits)

lemma join_game_token: "join_game e g s = Inr s' \<Longrightarrow> token_success e"
  by (auto simp: join_game_def Let_def split: if_splits)

lemma commit_board_token:
  "commit_board e g r s = Inr s' \<Longrightarrow>
   (caller e = player1 (games s g) \<or> caller e = player2 (games s g)) \<and>
   committed_root (games s g) (caller e) = 0"
  by (auto simp: commit_board_def committed_root_def Let_def split: if_splits)

lemma attack_pre:
  "attack e g x y s = Inr s' \<Longrightarrow>
   caller e = current_turn (games s g) \<and> x < 10 \<and> y < 10 \<and>
   \<not> revealed_cells s (g, opponent_of (games s g) (caller e), coords_to_index x y)"
  by (auto simp: attack_def opponent_of_def BOARD_SIZE_def Let_def split: if_splits)

lemma claim_victory_token: "claim_victory e g s = Inr s' \<Longrightarrow> token_success e"
  by (auto simp: claim_victory_def Let_def split: if_splits option.splits)

lemma claim_timeout_token: "claim_timeout e g s = Inr s' \<Longrightarrow> token_success e"
  by (auto simp: claim_timeout_def Let_def split: if_splits option.splits)

lemma dispatch_precondition:
  assumes "dispatch H e c s = Inr s'"
  shows "precondition H e c s"
proof (cases c)
  case (CreateGame stake)
  with assms obtain r where "create_game e stake s = Inr r"
    by (cases "create_game e stake s") auto
  from create_game_Inr [OF this] CreateGame show ?thesis by simp
next
  case (JoinGame g)
  with assms have j: "join_game e g s = Inr s'" by simp
  from join_game_Inr(1-3) [OF j] join_game_token [OF j] JoinGame show ?thesis by simp
next
  case (CommitBoard g r)
  with assms have j: "commit_board e g r s = Inr s'" by simp
  from commit_board_Inr(1,2) [OF j] commit_board_token [OF j] CommitBoard
  show ?thesis by simp
next
  case (Attack g x y)
  with assms have j: "attack e g x y s = Inr s'" by simp
  from attack_Inr(1-3) [OF j] attack_pre [OF j] Attack show ?thesis by auto
next
  case (Reveal g x y h sa pr)
  with assms have j: "reveal H e g x y h sa pr s = Inr s'" by simp
  from reveal_guards [OF j] Reveal show ?thesis by auto
next
  case (ClaimVictory g)
  with assms have j: "claim_victory e g s = Inr s'" by simp
  from claim_victory_Inr(1-4) [OF j] claim_victory_token [OF j] ClaimVictory
  show ?thesis by simp
next
  case (ClaimTimeout g)
  with assms have j: "claim_timeout e g s = Inr s'" by simp
  note f = claim_timeout_Inr [OF j]
  from f(5,6) have "unat DEFAULT_TIMEOUT \<le> unat (block_timestamp e) - unat (last_move_time (games s g))"
    by (simp add: word_le_nat_alt unat_sub)
  with f(1-4) claim_timeout_token [OF j] ClaimTimeout show ?thesis by simp
next
  case (WithdrawHouseFunds a)
  with assms show ?thesis by (auto simp: withdraw_house_funds_def split: if_splits)
next
  case (TransferOwnership a)
  with assms show ?thesis by (auto simp: transfer_ownership_def split: if_splits)
qed

lemma coords_to_index_unat:
  "unat (coords_to_index x y) = unat y * 10 + unat x"
proof -
  have small: "unat x < 2 ^ 8" "unat y < 2 ^ 8"
    using unsigned_less [of x] unsigned_less [of y] by simp_all
  then have "unat x < 2 ^ 32" "unat y < 2 ^ 32" by simp_all
  then have ux: "unat (ucast x :: u32) = unat x" and uy: "unat (ucast y :: u32) = unat y"
    by (simp_all add: unsigned_ucast_eq take_bit_nat_eq_self)
  from small have b: "unat y * 10 + unat x < 2 ^ 32" by simp
  have "unat (ucast y * (10 :: u32)) = unat y * 10"
    using b by (simp add: unat_word_ariths uy)
  then show ?thesis
    using b by (simp add: coords_to_index_def unat_word_ariths ux)
qed

lemma reachable_created: "reachable sample_hash storage_created"
  using reachable.step [OF reachable.deployed tx_env_caller(1) sample_create] .

lemma sample_timeout:
  "\<exists>s'. claim_timeout (tx_env alice 92400) 1 (storage_with (game_attacked 0 0)) = Inr s' \<and>
        status (games s' 1) = Forfeited"
  by (simp add: claim_timeout_def Let_def game_attacked_def game_in_progress_def tx_env_def
      timed_out_player_def alice_def bob_def zero_addr_def checked_sub_def checked_mul_def
      DEFAULT_TIMEOUT_def word_le_nat_alt)

subsection \<open>Timeout before an opponent joins\<close>

text \<open>
  Claim C10. In every reachable storage: on a game still waiting for an opponent
  \<open>claim_timeout\<close> and \<open>claim_victory\<close> panic, whoever calls and whenever, and the only
  call that changes such a game is \<open>join_game\<close> by somebody other than its creator, so a
  creator whom nobody joins has no call that pays the stake back. Whenever
  \<open>claim_timeout\<close> goes through, the game is past that phase, \<open>player2\<close> is a non-zero
  address whose stake the contract has collected, and the caller is paid exactly twice
  the stake: the branch that would pay a single stake is never taken.
\<close>

theorem claim_timeout_pays_double:
  assumes "reachable H s"
  shows "(status (games s g) = WaitingForOpponent \<longrightarrow>
            (\<exists>p. claim_timeout e g s = Inl p) \<and> (\<exists>p. claim_victory e g s = Inl p)) \<and>
         (id_field (games s g) \<noteq> 0 \<and> status (games s g) = WaitingForOpponent \<and>
          dispatch H e c s = Inr s' \<and> games s' g \<noteq> games s g \<longrightarrow>
            c = JoinGame g \<and> caller e \<noteq> player1 (games s g)) \<and>
         (claim_timeout e g s = Inr s' \<longrightarrow>
            status (games s g) \<noteq> WaitingForOpponent \<and>
            player2 (games s g) \<noteq> zero_addr \<and>
            TransferFrom (player2 (games s g)) (stake_amount (games s g)) \<in> set (token_calls s) \<and>
            (\<exists>pot. token_calls s' = token_calls s @ [Transfer (caller e) pot] \<and>
                   unat pot = 2 * unat (stake_amount (games s g))))"
proof -
  let ?G = "games s g"
  note i = reachable_inv [OF assms]
  have A: "(\<exists>p. claim_timeout e g s = Inl p) \<and> (\<exists>p. claim_victory e g s = Inl p)"
    if w: "status ?G = WaitingForOpponent"
  proof
    show "\<exists>p. claim_timeout e g s = Inl p"
      using w by (cases "claim_timeout e g s") (auto dest: claim_timeout_Inr(2))
    show "\<exists>p. claim_victory e g s = Inl p"
      using w by (cases "claim_victory e g s") (auto dest: claim_victory_Inr(2))
  qed
  have B: "c = JoinGame g \<and> caller e \<noteq> player1 ?G"
    if a: "id_field ?G \<noteq> 0 \<and> status ?G = WaitingForOpponent \<and>
          dispatch H e c s = Inr s' \<and> games s' g \<noteq> games s g"
  proof -
    from a have ne: "?G \<noteq> empty_game" by (auto simp: id_empty_game)
    from a have w: "status ?G = WaitingForOpponent" and d: "dispatch H e c s = Inr s'"
      and ch: "games s' g \<noteq> games s g" by simp_all
    show "c = JoinGame g \<and> caller e \<noteq> player1 ?G"
    proof (cases c)
      case (CreateGame st)
      with d obtain k where "create_game e st s = Inr (k, s')"
        by (cases "create_game e st s") auto
      from create_game_frame [OF i this ne] ch show ?thesis by simp
    next
      case (JoinGame g')
      with d have j: "join_game e g' s = Inr s'" by simp
      from join_game_Inr(4) [OF j, of g] ch have "g' = g" by auto
      with j join_game_Inr(3) JoinGame show ?thesis by auto
    next
      case (CommitBoard g' r)
      with d have j: "commit_board e g' r s = Inr s'" by simp
      from commit_board_Inr(3) [OF j, of g] ch have "g' = g" by auto
      with commit_board_Inr(2) [OF j] w show ?thesis by simp
    next
      case (Attack g' x y)
      with d have j: "attack e g' x y s = Inr s'" by simp
      from attack_Inr(4) [OF j, of g] ch have "g' = g" by auto
      with attack_Inr(2) [OF j] w show ?thesis by simp
    next
      case (Reveal g' x y h sa pr)
      with d have j: "reveal H e g' x y h sa pr s = Inr s'" by simp
      from reveal_frame [OF j, of g] ch have "g' = g" by auto
      with reveal_guards(2) [OF j] w show ?thesis by simp
    next
      case (ClaimVictory g')
      with d have j: "claim_victory e g' s = Inr s'" by simp
      from claim_victory_Inr(5) [OF j, of g] ch have "g' = g" by auto
      with claim_victory_Inr(2) [OF j] w show ?thesis by simp
    next
      case (ClaimTimeout g')
      with d have j: "claim_timeout e g' s = Inr s'" by simp
      from claim_timeout_Inr(8) [OF j, of g] ch have "g' = g" by auto
      with claim_timeout_Inr(2) [OF j] w show ?thesis by auto
    next
      case (WithdrawHouseFunds a)
      with d withdraw_house_funds_frame ch show ?thesis by auto
    next
      case (TransferOwnership a)
      with d transfer_ownership_frame ch show ?thesis by auto
    qed
  qed
  have C: "status ?G \<noteq> WaitingForOpponent \<and> player2 ?G \<noteq> zero_addr \<and>
            TransferFrom (player2 ?G) (stake_amount ?G) \<in> set (token_calls s) \<and>
            (\<exists>pot. token_calls s' = token_calls s @ [Transfer (caller e) pot] \<and>
                   unat pot = 2 * unat (stake_amount ?G))"
    if t: "claim_timeout e g s = Inr s'"
  proof -
    note f = claim_timeout_Inr [OF t]
    from f(1) have ne: "?G \<noteq> empty_game" by (auto simp: id_empty_game)
    have st: "status ?G \<noteq> WaitingForOpponent" using f(2) by auto
    from inv_game [OF i, of g] ne st
    have p2: "player2 ?G \<noteq> zero_addr"
      and paid: "TransferFrom (player2 ?G) (stake_amount ?G) \<in> set (token_calls s)"
      by (simp_all add: game_ok_def)
    from f(7) p2 obtain pot where pot: "checked_mul (stake_amount ?G) 2 = Some pot"
      and tc: "token_calls s' = token_calls s @ [Transfer (caller e) pot]"
      by auto
    from checked_mul_unat [OF pot] have "unat pot = 2 * unat (stake_amount ?G)" by simp
    with tc st p2 paid show ?thesis by blast
  qed
  from A B C show ?thesis by blast
qed

text \<open>
  On the sample game: no timeout while only \<open>alice\<close> has joined; after her attack went
  unanswered for a day she is paid \<open>2 * 10^18\<close>.
\<close>

theorem claim_timeout_pays_double_witness:
  "(\<exists>p. claim_timeout (tx_env alice 90000) 1 storage_created = Inl p) \<and>
   (\<exists>s' pot. claim_timeout (tx_env alice 92400) 1 (storage_with (game_attacked 0 0)) = Inr s' \<and>
      token_calls s' = token_calls (storage_with (game_attacked 0 0)) @ [Transfer alice pot] \<and>
      unat pot = 2000000000000000000)"
proof -
  have w: "status (games storage_created 1) = WaitingForOpponent"
    by (simp add: storage_created_def game_created_def)
  from claim_timeout_pays_double [OF reachable_created, of 1 "tx_env alice 90000"] w
  have 1: "\<exists>p. claim_timeout (tx_env alice 90000) 1 storage_created = Inl p" by blast
  obtain s' where t: "claim_timeout (tx_env alice 92400) 1 (storage_with (game_attacked 0 0)) = Inr s'"
    using sample_timeout by blast
  have st: "stake_amount (game_attacked 0 0) = 1000000000000000000"
    by (simp add: game_attacked_def game_in_progress_def)
  from claim_timeout_pays_double [OF reachable_attacked, of 1 "tx_env alice 92400" _ s'] t
  have "\<exists>pot. token_calls s' = token_calls (storage_with (game_attacked 0 0)) @ [Transfer alice pot] \<and>
      unat pot = 2000000000000000000"
    by (simp add: st tx_env_def)
  with 1 t show ?thesis by blast
qed

subsection \<open>Calls during a pending attack\<close>

text \<open>
  Claim C9 as stated does not hold: \<open>claim_victory\<close> does not look at
  \<open>has_pending_attack\<close>. In the sample game with seven hits for \<open>alice\<close> and her attack
  on \<open>(1, 0)\<close> pending, her \<open>claim_victory\<close> goes through and finishes the game.
\<close>

theorem claim_victory_during_pending_attack:
  "has_pending_attack (games (storage_with (game_attacked 7 0)) 1) \<and>
   status (games (storage_with (game_attacked 7 0)) 1) = InProgress \<and>
   snd (transact sample_hash (tx_env alice 6500) (ClaimVictory 1)
          (storage_with (game_attacked 7 0))) = None \<and>
   status (games (fst (transact sample_hash (tx_env alice 6500) (ClaimVictory 1)
          (storage_with (game_attacked 7 0)))) 1) = Finished \<and>
   winner (games (fst (transact sample_hash (tx_env alice 6500) (ClaimVictory 1)
          (storage_with (game_attacked 7 0)))) 1) = alice"
  by (simp add: transact_def claim_victory_def Let_def game_attacked_def game_in_progress_def
      tx_env_def HITS_TO_WIN_def fee_numbers checked_add_def)

text \<open>
  Claim C9, amended. In every reachable storage, while a game has a pending attack: a
  further \<open>attack\<close> on it panics, and a call that goes through and changes the game's
  record is a \<open>reveal\<close> for that game, a \<open>claim_victory\<close> for it by a caller whose hit
  counter has reached the threshold, or a \<open>claim_timeout\<close> for it once the timeout has
  elapsed. Every other call panics or leaves the record as it was.
\<close>

theorem pending_attack_writers:
  assumes "reachable H s" and "has_pending_attack (games s g)"
  shows "(\<exists>p. attack e g x y s = Inl p) \<and>
         (dispatch H e c s = Inr s' \<and> games s' g \<noteq> games s g \<longrightarrow>
            (\<exists>x y is_hit salt prf. c = Reveal g x y is_hit salt prf) \<or>
            (c = ClaimVictory g \<and> HITS_TO_WIN \<le> caller_hits (games s g) (caller e)) \<or>
            (c = ClaimTimeout g \<and> last_move_time (games s g) \<le> block_timestamp e \<and>
             DEFAULT_TIMEOUT \<le> block_timestamp e - last_move_time (games s g)))"
proof -
  let ?G = "games s g"
  note i = reachable_inv [OF assms(1)]
  have ne: "?G \<noteq> empty_game" using assms(2) by (auto simp: empty_game_def)
  with inv_game [OF i, of g] assms(2)
  have st: "status ?G \<noteq> WaitingForOpponent" "status ?G \<noteq> WaitingForCommitments"
    by (simp_all add: game_ok_def)
  have A: "\<exists>p. attack e g x y s = Inl p"
    using assms(2) by (cases "attack e g x y s") (auto dest: attack_Inr(3))
  have B: "(\<exists>x y is_hit salt prf. c = Reveal g x y is_hit salt prf) \<or>
            (c = ClaimVictory g \<and> HITS_TO_WIN \<le> caller_hits ?G (caller e)) \<or>
            (c = ClaimTimeout g \<and> last_move_time ?G \<le> block_timestamp e \<and>
             DEFAULT_TIMEOUT \<le> block_timestamp e - last_move_time ?G)"
    if a: "dispatch H e c s = Inr s' \<and> games s' g \<noteq> games s g"
  proof -
    from a have d: "dispatch H e c s = Inr s'" and ch: "games s' g \<noteq> games s g" by simp_all
    show ?thesis
    proof (cases c)
      case (CreateGame stk)
      with d obtain k where "create_game e stk s = Inr (k, s')"
        by (cases "create_game e stk s") auto
      from create_game_frame [OF i this ne] ch show ?thesis by simp
    next
      case (JoinGame g')
      with d have j: "join_game e g' s = Inr s'" by simp
      from join_game_Inr(4) [OF j, of g] ch have "g' = g" by auto
      with join_game_Inr(2) [OF j] st show ?thesis by simp
    next
      case (CommitBoard g' r)
      with d have j: "commit_board e g' r s = Inr s'" by simp
      from commit_board_Inr(3) [OF j, of g] ch have "g' = g" by auto
      with commit_board_Inr(2) [OF j] st show ?thesis by simp
    next
      case (Attack g' x' y')
      with d have j: "attack e g' x' y' s = Inr s'" by simp
      from attack_Inr(4) [OF j, of g] ch have "g' = g" by auto
      with attack_Inr(3) [OF j] assms(2) show ?thesis by simp
    next
      case (Reveal g' x' y' h sa pr)
      with d have j: "reveal H e g' x' y' h sa pr s = Inr s'" by simp
      from reveal_frame [OF j, of g] ch have "g' = g" by auto
      with Reveal show ?thesis by simp
    next
      case (ClaimVictory g')
      with d have j: "claim_victory e g' s = Inr s'" by simp
      from claim_victory_Inr(5) [OF j, of g] ch have "g' = g" by auto
      with claim_victory_Inr(4) [OF j] ClaimVictory show ?thesis by simp
    next
      case (ClaimTimeout g')
      with d have j: "claim_timeout e g' s = Inr s'" by simp
      from claim_timeout_Inr(8) [OF j, of g] ch have "g' = g" by auto
      with claim_timeout_Inr(5,6) [OF j] ClaimTimeout show ?thesis by simp
    next
      case (WithdrawHouseFunds a)
      with d withdraw_house_funds_frame ch show ?thesis by auto
    next
      case (TransferOwnership a)
      with d transfer_ownership_frame ch show ?thesis by auto
    qed
  qed
  from A B show ?thesis by blast
qed

text \<open>
  On the sample game with the attack of \<open>alice\<close> pending: an attack by \<open>bob\<close> panics, and
  the timeout claim of \<open>alice\<close> a day later changes the game.
\<close>

theorem pending_attack_writers_witness:
  "(\<exists>p. attack (tx_env bob 6500) 1 5 5 (storage_with (game_attacked 0 0)) = Inl p) \<and>
   (\<exists>s'. dispatch sample_hash (tx_env alice 92400) (ClaimTimeout 1)
            (storage_with (game_attacked 0 0)) = Inr s' \<and>
         games s' 1 \<noteq> games (storage_with (game_attacked 0 0)) 1) \<and>
   DEFAULT_TIMEOUT \<le> 92400 - last_move_time (game_attacked 0 0)"
proof -
  let ?s = "storage_with (game_attacked 0 0)"
  have p: "has_pending_attack (games ?s 1)" by (simp add: game_attacked_def)
  note th = pending_attack_writers [OF reachable_attacked p]
  from th [where e = "tx_env bob 6500" and x = 5 and y = 5]
  have 1: "\<exists>p. attack (tx_env bob 6500) 1 5 5 ?s = Inl p" by blast
  obtain s' where t: "claim_timeout (tx_env alice 92400) 1 ?s = Inr s'"
    and f: "status (games s' 1) = Forfeited"
    using sample_timeout by blast
  from t have d: "dispatch sample_hash (tx_env alice 92400) (ClaimTimeout 1) ?s = Inr s'" by simp
  have "status (games ?s 1) = InProgress" by (simp add: game_attacked_def game_in_progress_def)
  with f have ch: "games s' 1 \<noteq> games ?s 1" by auto
  from th [where e = "tx_env alice 92400" and c = "ClaimTimeout 1" and s' = s'] d ch
  have "DEFAULT_TIMEOUT \<le> 92400 - last_move_time (game_attacked 0 0)"
    by (simp add: tx_env_def)
  with 1 d ch show ?thesis by blast
qed

subsection \<open>What the verifier is asked\<close>

text \<open>
  Claim C1 as stated does not hold: \<open>verify_proof\<close> checks neither the index nor the
  length of the proof. Against the root of the sample tree it accepts the padding leaf
  \<open>0\<close> at index 100 with that leaf's own seven siblings (\<open>sample_tree\<close>,
  \<open>sample_padding_proof\<close>), and it accepts an empty proof for a leaf equal to the root.
\<close>

theorem verify_proof_unchecked:
  "verify_proof sample_hash 197089987 0 [0, 1, 201945, 21, 85, 12834645, 51044443] 100 \<and>
   verify_proof sample_hash 12388 12388 [] 1"
  by (simp add: verify_proof_def sample_hash_def)

text \<open>
  Claim C1, amended. \<open>verify_proof\<close> accepts exactly when replaying the parity rule from
  the leaf over the given siblings ends in the root, whatever the index and the length
  of the proof. The bound on the index is kept by the caller: in every reachable storage
  a \<open>reveal\<close> that goes through has \<open>x, y < 10\<close>, so the index \<open>y * 10 + x\<close> it had verified
  is below 100, and the replay from the leaf of that cell ended in the root committed by
  the caller. No padding leaf is ever accepted as a revealed cell.
\<close>

theorem reveal_index_on_board:
  assumes "reachable H s" and "reveal H e g x y is_hit salt prf s = Inr s'"
  shows "x < 10 \<and> y < 10 \<and> unat (coords_to_index x y) = unat y * 10 + unat x \<and>
         unat (coords_to_index x y) < 100 \<and>
         verify_loop H (compute_leaf H x y (if is_hit then 1 else 0) salt)
           (coords_to_index x y) prf = committed_root (games s g) (caller e)"
proof -
  let ?G = "games s g"
  note f = reveal_guards [OF assms(2)]
  from f(3) have "?G \<noteq> empty_game" by (auto simp: empty_game_def)
  with inv_game [OF reachable_inv [OF assms(1)], of g] f(3)
  have "pending_attack_x ?G < 10" "pending_attack_y ?G < 10" by (simp_all add: game_ok_def)
  then have xy: "x < 10" "y < 10" using f(5,6) by simp_all
  then have "unat x < 10" "unat y < 10" by (simp_all add: word_less_nat_alt)
  then have "unat y * 10 + unat x < 100" by simp
  with xy f(7) show ?thesis by (simp add: coords_to_index_unat verify_proof_def)
qed

text \<open>The reveal of \<open>bob\<close> in the sample game.\<close>

theorem reveal_index_on_board_witness:
  "(1 :: u8) < 10 \<and> (0 :: u8) < 10 \<and> unat (coords_to_index 1 0) < 100 \<and>
   verify_loop sample_hash (compute_leaf sample_hash 1 0 1 12345) (coords_to_index 1 0)
     sample_proof = 197089987"
proof -
  have r: "reveal sample_hash (tx_env bob 7000) 1 1 0 True 12345 sample_proof
             (storage_with (game_attacked 0 0)) = Inr storage_revealed"
    using sample_reveal by simp
  have c: "committed_root (game_attacked 0 0) bob = 197089987"
    by (simp add: committed_root_def game_attacked_def game_in_progress_def alice_def bob_def)
  from reveal_index_on_board [OF reachable_attacked r] show ?thesis
    by (simp add: c tx_env_def)
qed

subsection \<open>Atomicity\<close>

text \<open>
  Claim C5. For each of \<open>create_game\<close>, \<open>join_game\<close>, \<open>commit_board\<close>, \<open>attack\<close>,
  \<open>reveal\<close>, \<open>claim_victory\<close> and \<open>claim_timeout\<close> (and the two owner calls): whenever
  one of its preconditions fails the call panics, and the storage after a transaction
  that panics is the storage before it, with every game record, revealed cell, the game
  count and the house balance. The panic on a failed payout is raised after the
  contract's storage writes; that those writes do not persist is the ledger's revert of
  a panicking transaction, which \<open>transact\<close> models.
\<close>

theorem operations_atomic:
  "(\<not> precondition H e c s \<longrightarrow> (\<exists>p. transact H e c s = (s, Some p))) \<and>
   (\<forall>p. snd (transact H e c s) = Some p \<longrightarrow> fst (transact H e c s) = s)"
proof
  show "\<not> precondition H e c s \<longrightarrow> (\<exists>p. transact H e c s = (s, Some p))"
  proof
    assume n: "\<not> precondition H e c s"
    show "\<exists>p. transact H e c s = (s, Some p)"
    proof (cases "dispatch H e c s")
      case (Inl p)
      then show ?thesis by (simp add: transact_def)
    next
      case (Inr s')
      from dispatch_precondition [OF this] n show ?thesis by simp
    qed
  qed
  show "\<forall>p. snd (transact H e c s) = Some p \<longrightarrow> fst (transact H e c s) = s"
    by (cases "dispatch H e c s") (simp_all add: transact_def)
qed

text \<open>A second attack on the sample game: refused, and the storage is untouched.\<close>

theorem operations_atomic_witness:
  "transact sample_hash (tx_env bob 6500) (Attack 1 5 5) (storage_with (game_attacked 0 0))
     = (storage_with (game_attacked 0 0), Some PendingAttackExists)"
proof -
  let ?s = "storage_with (game_attacked 0 0)"
  have n: "\<not> precondition sample_hash (tx_env bob 6500) (Attack 1 5 5) ?s"
    by (simp add: game_attacked_def)
  from operations_atomic [of sample_hash "tx_env bob 6500" "Attack 1 5 5" ?s] n
  obtain p where t: "transact sample_hash (tx_env bob 6500) (Attack 1 5 5) ?s = (?s, Some p)"
    by blast
  have "attack (tx_env bob 6500) 1 5 5 ?s = Inl PendingAttackExists"
    by (simp add: attack_def game_attacked_def game_in_progress_def Let_def)
  then have "snd (transact sample_hash (tx_env bob 6500) (Attack 1 5 5) ?s)
               = Some PendingAttackExists"
    by (simp add: transact_def)
  with t show ?thesis by simp
qed

end
